theory Spec2Isabelle
  imports Main "HOL-Library.Word"
begin

unbundle bit_operations_syntax

section \<open>duckOS virtual memory: address-space range map and memory syscalls\<close>

text \<open>
  The kernel targets 32-bit x86 (the loader accepts only \<^verbatim>\<open>ELF32\<close>/\<^verbatim>\<open>ELF_X86\<close> images), so
  \<^verbatim>\<open>size_t\<close> and \<^verbatim>\<open>VirtualAddress\<close> are 32-bit words whose arithmetic wraps around.
  \<^verbatim>\<open>int\<close> return codes are small and never overflow; they are mathematical integers.
\<close>

type_synonym size_t = "32 word"
type_synonym VirtualAddress = "32 word"
type_synonym pid_t = int

subsection \<open>Constants of headers that are not among the sources\<close>

text \<open>
  Modelled from the spec: the errno header is not among the sources. The spec's
  "negative errno on failure" and the sources' own \<^verbatim>\<open>return -EINVAL;\<close>, \<^verbatim>\<open>return -ENOENT;\<close>
  make the constants positive; the values are the usual POSIX ones.
\<close>

definition SUCCESS :: int where "SUCCESS = 0"
definition ENOENT :: int where "ENOENT = 2"
definition ENOMEM :: int where "ENOMEM = 12"
definition EINVAL :: int where "EINVAL = 22"

text \<open>
  Modelled from the spec: \<^verbatim>\<open>PAGE_SIZE\<close> is declared in the memory manager's header, which is
  not among the sources; the spec's scenarios use 4 KiB pages (\<^verbatim>\<open>0x1000\<close>).
\<close>

definition PAGE_SIZE :: size_t where "PAGE_SIZE = 0x1000"

text \<open>
  Modelled from the spec: the \<^verbatim>\<open>Result\<close> class is not among the sources. A \<^verbatim>\<open>Result\<close> carries
  an \<^verbatim>\<open>int\<close> code that \<^verbatim>\<open>code()\<close> returns as it was given, a \<^verbatim>\<open>ResultRet<T>\<close> a code or a
  value. A failed \<^verbatim>\<open>ASSERT\<close> halts the kernel: it is an outcome of its own, not a code.
\<close>

datatype error = Errno int | ASSERT_FAILED

fun code :: "error \<Rightarrow> int option" where
  "code (Errno c) = Some c"
| "code ASSERT_FAILED = None"

text \<open>
  A system call returns an \<^verbatim>\<open>int\<close>; where a failed assertion can halt the kernel inside it,
  the model's result is an \<open>int option\<close> and \<open>None\<close> stands for the halt.
\<close>

subsection \<open>The range map: \<^verbatim>\<open>VMSpaceRegion\<close> nodes\<close>

text \<open>
  A node of the doubly linked list \<^verbatim>\<open>m_region_map\<close>. The list itself is a HOL list in
  list order; \<^verbatim>\<open>prev\<close> and \<^verbatim>\<open>next\<close> are the neighbours in that list, and the head is the first
  element. Where the source links a new node before or after \<^verbatim>\<open>cur_region\<close> or unlinks a
  neighbour, it sets both neighbours' pointers and moves the head \<^verbatim>\<open>m_region_map\<close> when the
  first node is concerned; the model makes the corresponding list edit.
\<close>

text \<open>
  The field \<^verbatim>\<open>size\<close> is \<open>size_n\<close> and the method \<^verbatim>\<open>end()\<close> is \<open>end_n\<close>: \<open>size\<close> is a constant of
  HOL and \<^verbatim>\<open>end\<close> a keyword.
\<close>

record VMSpaceRegion =
  start :: VirtualAddress
  size_n :: size_t
  used :: bool

text \<open>
  Modelled from the spec: \<^verbatim>\<open>VMSpaceRegion::end\<close> and \<^verbatim>\<open>VMSpaceRegion::contains\<close> are declared in
  \<^verbatim>\<open>VMSpace.h\<close>, which is not among the sources. The spec speaks of "the node containing
  \<^verbatim>\<open>addr\<close>" and of \<^verbatim>\<open>node.end\<close> as the end of \<^verbatim>\<open>[node.start, node.end)\<close>.
\<close>

definition end_n :: "VMSpaceRegion \<Rightarrow> VirtualAddress" where
  "end_n r = start r + size_n r"

definition contains :: "VMSpaceRegion \<Rightarrow> VirtualAddress \<Rightarrow> bool" where
  "contains r address \<longleftrightarrow> start r \<le> address \<and> address < end_n r"

subsection \<open>Protections, objects, regions, the address space\<close>

record VMProt =
  read :: bool
  "write" :: bool
  execute :: bool
  cow :: bool

text \<open>
  A \<^verbatim>\<open>Ptr<VMObject>\<close> is the object's identity (its address) together with what
  \<^verbatim>\<open>object->size()\<close> returns, which never changes. Equal pointers point to the same
  object, so they are equal as such pairs.
\<close>

record VMObject =
  o_addr :: nat
  o_size :: size_t

record VMRegion =
  r_object :: VMObject
  r_start :: VirtualAddress
  r_size :: size_t
  r_prot :: VMProt

text \<open>
  \<^verbatim>\<open>VMSpace\<close>, with the page directory it refers to as an abstract state \<open>'pd\<close>.
\<close>

record 'pd VMSpace =
  m_start :: VirtualAddress
  m_size :: size_t
  m_region_map :: "VMSpaceRegion list"
  m_used :: size_t
  m_regions :: "VMRegion list"
  m_page_directory :: 'pd

definition VMSpace_init :: "VirtualAddress \<Rightarrow> size_t \<Rightarrow> 'pd \<Rightarrow> 'pd VMSpace" where
  "VMSpace_init st sz pd =
     \<lparr> m_start = st, m_size = sz,
       m_region_map = [\<lparr> start = st, size_n = sz, used = False \<rparr>],
       m_used = 0, m_regions = [], m_page_directory = pd \<rparr>"

subsection \<open>\<^verbatim>\<open>VMSpace::alloc_space\<close>\<close>

text \<open>
  The scan of \<^verbatim>\<open>alloc_space\<close> from \<^verbatim>\<open>cur_region\<close> on: \<open>None\<close> when the loop runs off the end
  of the list, else the address returned and the list from \<^verbatim>\<open>cur_region\<close> on, edited.
\<close>

fun alloc_scan :: "size_t \<Rightarrow> VMSpaceRegion list \<Rightarrow> (VirtualAddress \<times> VMSpaceRegion list) option" where
  "alloc_scan sz [] = None"
| "alloc_scan sz (cur # rest) =
     (if used cur then map_option (apsnd ((#) cur)) (alloc_scan sz rest)
      else if size_n cur = sz then Some (start cur, cur\<lparr>used := True\<rparr> # rest)
      else if size_n cur \<ge> sz then
        Some (start cur,
              \<lparr> start = start cur, size_n = sz, used = True \<rparr>
              # cur\<lparr> start := start cur + sz, size_n := size_n cur - sz \<rparr>
              # rest)
      else map_option (apsnd ((#) cur)) (alloc_scan sz rest))"

text \<open>
  In both allocating branches the size added to \<^verbatim>\<open>m_used\<close> (\<^verbatim>\<open>cur_region->size\<close>, resp.
  \<^verbatim>\<open>new_region->size\<close>) is the requested size.
\<close>

definition alloc_space :: "'pd VMSpace \<Rightarrow> size_t \<Rightarrow> (error + VirtualAddress) \<times> 'pd VMSpace" where
  "alloc_space s sz =
     (if sz mod PAGE_SIZE \<noteq> 0 then (Inl ASSERT_FAILED, s)
      else case alloc_scan sz (m_region_map s) of
        None \<Rightarrow> (Inl (Errno ENOMEM), s)
      | Some (a, ns) \<Rightarrow> (Inr a, s\<lparr> m_region_map := ns, m_used := m_used s + sz \<rparr>))"

subsection \<open>\<^verbatim>\<open>VMSpace::alloc_space_at\<close>\<close>

fun alloc_at_scan ::
  "size_t \<Rightarrow> VirtualAddress \<Rightarrow> VMSpaceRegion list \<Rightarrow> (VirtualAddress \<times> VMSpaceRegion list) option" where
  "alloc_at_scan sz address [] = None"
| "alloc_at_scan sz address (cur # rest) =
     (if contains cur address then
        if used cur then None
        else if size_n cur = sz then Some (start cur, cur\<lparr>used := True\<rparr> # rest)
        else if size_n cur - (address - start cur) \<ge> sz then
          Some (address,
                (if start cur < address
                 then [\<lparr> start = start cur, size_n = address - start cur, used = False \<rparr>]
                 else [])
                @ [cur\<lparr> start := address, size_n := sz, used := True \<rparr>]
                @ (if end_n cur > address + sz
                   then [\<lparr> start = address + sz, size_n = end_n cur - (address + sz), used = False \<rparr>]
                   else [])
                @ rest)
        else None
      else map_option (apsnd ((#) cur)) (alloc_at_scan sz address rest))"

text \<open>Every failing exit of the loop, and its end, is \<^verbatim>\<open>Result(ENOMEM)\<close>.\<close>

definition alloc_space_at ::
  "'pd VMSpace \<Rightarrow> size_t \<Rightarrow> VirtualAddress \<Rightarrow> (error + VirtualAddress) \<times> 'pd VMSpace" where
  "alloc_space_at s sz address =
     (if address mod PAGE_SIZE \<noteq> 0 then (Inl ASSERT_FAILED, s)
      else if sz mod PAGE_SIZE \<noteq> 0 then (Inl ASSERT_FAILED, s)
      else case alloc_at_scan sz address (m_region_map s) of
        None \<Rightarrow> (Inl (Errno ENOMEM), s)
      | Some (a, ns) \<Rightarrow> (Inr a, s\<lparr> m_region_map := ns, m_used := m_used s + sz \<rparr>))"

subsection \<open>\<^verbatim>\<open>VMSpace::free_space\<close>\<close>

text \<open>
  The scan of \<^verbatim>\<open>free_space\<close>: \<open>passed\<close> holds the nodes already passed, in list order, so
  that \<^verbatim>\<open>cur_region->prev\<close> is its last element. \<open>None\<close> is a failed assertion: the node
  found has another size (\<^verbatim>\<open>ASSERT(cur_region->size == size)\<close>), or the loop runs off the end
  (\<^verbatim>\<open>ASSERT(false)\<close>). The node is not asked whether it is used.
\<close>

definition merge_prev :: "VMSpaceRegion list \<Rightarrow> VMSpaceRegion \<Rightarrow> VMSpaceRegion list \<times> VMSpaceRegion" where
  "merge_prev passed cur =
     (if passed \<noteq> [] \<and> \<not> used (last passed)
      then (butlast passed,
            cur\<lparr> start := start cur - size_n (last passed),
                 size_n := size_n cur + size_n (last passed) \<rparr>)
      else (passed, cur))"

definition merge_next :: "VMSpaceRegion \<Rightarrow> VMSpaceRegion list \<Rightarrow> VMSpaceRegion \<times> VMSpaceRegion list" where
  "merge_next cur rest =
     (case rest of
        [] \<Rightarrow> (cur, rest)
      | nxt # rest' \<Rightarrow>
          if \<not> used nxt then (cur\<lparr> size_n := size_n cur + size_n nxt \<rparr>, rest')
          else (cur, rest))"

fun free_scan ::
  "size_t \<Rightarrow> VirtualAddress \<Rightarrow> VMSpaceRegion list \<Rightarrow> VMSpaceRegion list \<Rightarrow> VMSpaceRegion list option" where
  "free_scan sz address passed [] = None"
| "free_scan sz address passed (cur # rest) =
     (if start cur = address then
        if size_n cur \<noteq> sz then None
        else
          let (passed', cur') = merge_prev passed (cur\<lparr>used := False\<rparr>);
              (cur'', rest') = merge_next cur' rest
          in Some (passed' @ cur'' # rest')
      else free_scan sz address (passed @ [cur]) rest)"

definition free_space ::
  "'pd VMSpace \<Rightarrow> size_t \<Rightarrow> VirtualAddress \<Rightarrow> (error + unit) \<times> 'pd VMSpace" where
  "free_space s sz address =
     (if sz mod PAGE_SIZE \<noteq> 0 then (Inl ASSERT_FAILED, s)
      else if address mod PAGE_SIZE \<noteq> 0 then (Inl ASSERT_FAILED, s)
      else case free_scan sz address [] (m_region_map s) of
        None \<Rightarrow> (Inl ASSERT_FAILED, s)
      | Some ns \<Rightarrow> (Inr (), s\<lparr> m_region_map := ns, m_used := m_used s - sz \<rparr>))"

subsection \<open>\<^verbatim>\<open>VMSpace::map_object\<close>, both overloads\<close>

text \<open>
  \<^verbatim>\<open>PageDirectory::map\<close> is not among the sources: it is the parameter \<open>pd_map\<close>, which may
  change the page directory and reports an outcome of any type \<open>'r\<close>. The source calls it
  as a statement, so whatever it reports is dropped.
\<close>

definition map_object ::
  "(VMRegion \<Rightarrow> 'pd \<Rightarrow> 'r \<times> 'pd) \<Rightarrow> 'pd VMSpace \<Rightarrow> VMObject \<Rightarrow> VMProt
     \<Rightarrow> (error + VMRegion) \<times> 'pd VMSpace" where
  "map_object pd_map s object prot =
     (case alloc_space s (o_size object) of
        (Inl e, s') \<Rightarrow> (Inl e, s')
      | (Inr vaddr, s') \<Rightarrow>
          let region = \<lparr> r_object = object, r_start = vaddr, r_size = o_size object, r_prot = prot \<rparr>;
              s'' = s'\<lparr> m_regions := m_regions s' @ [region] \<rparr>;
              (res, pd') = pd_map region (m_page_directory s'')
          in (Inr region, s''\<lparr> m_page_directory := pd' \<rparr>))"

definition map_object_at ::
  "(VMRegion \<Rightarrow> 'pd \<Rightarrow> 'r \<times> 'pd) \<Rightarrow> 'pd VMSpace \<Rightarrow> VMObject \<Rightarrow> VirtualAddress \<Rightarrow> VMProt
     \<Rightarrow> (error + VMRegion) \<times> 'pd VMSpace" where
  "map_object_at pd_map s object address prot =
     (case alloc_space_at s (o_size object) address of
        (Inl e, s') \<Rightarrow> (Inl e, s')
      | (Inr vaddr, s') \<Rightarrow>
          let region = \<lparr> r_object = object, r_start = vaddr, r_size = o_size object, r_prot = prot \<rparr>;
              s'' = s'\<lparr> m_regions := m_regions s' @ [region] \<rparr>;
              (res, pd') = pd_map region (m_page_directory s'')
          in (Inr region, s''\<lparr> m_page_directory := pd' \<rparr>))"

subsection \<open>\<^verbatim>\<open>VMSpace::unmap_region\<close> and the end of a region\<close>

text \<open>
  The loop of \<^verbatim>\<open>unmap_region(VMRegion&)\<close> over \<^verbatim>\<open>m_regions\<close>: the first entry that is the region
  is erased; \<open>None\<close> when the region is not registered. The source compares addresses; the
  model compares the regions, and two registered regions of one space differ in their
  start unless one of them is empty.
\<close>

fun erase_region :: "VMRegion \<Rightarrow> VMRegion list \<Rightarrow> VMRegion list option" where
  "erase_region region [] = None"
| "erase_region region (r # rs) =
     (if r = region then Some rs else map_option ((#) r) (erase_region region rs))"

text \<open>
  \<^verbatim>\<open>unmap_region(VMRegion&)\<close>: the region leaves \<^verbatim>\<open>m_regions\<close>, its range is freed, and
  \<^verbatim>\<open>ASSERT(!free_res.is_error())\<close> halts on any error of \<^verbatim>\<open>free_space\<close>; then the page directory
  unmaps the region. \<^verbatim>\<open>PageDirectory::unmap\<close> is not among the sources: it is the parameter
  \<open>pd_unmap\<close>, whose outcome the source drops.
\<close>

definition unmap_region ::
  "(VMRegion \<Rightarrow> 'pd \<Rightarrow> 'r \<times> 'pd) \<Rightarrow> 'pd VMSpace \<Rightarrow> VMRegion \<Rightarrow> (error + unit) \<times> 'pd VMSpace" where
  "unmap_region pd_unmap s region =
     (case erase_region region (m_regions s) of
        None \<Rightarrow> (Inl (Errno ENOENT), s)
      | Some rs \<Rightarrow>
          (case free_space (s\<lparr> m_regions := rs \<rparr>) (r_size region) (r_start region) of
             (Inl e, s') \<Rightarrow> (Inl ASSERT_FAILED, s')
           | (Inr u, s') \<Rightarrow>
               let (res, pd') = pd_unmap region (m_page_directory s')
               in (Inr (), s'\<lparr> m_page_directory := pd' \<rparr>)))"

text \<open>
  Modelled from the spec: the destructor of \<^verbatim>\<open>VMRegion\<close> is not among the sources. "If the
  region still has a live \<^verbatim>\<open>VMSpace\<close> weak reference, it calls \<^verbatim>\<open>unmap_region(self)\<close> on that
  space; otherwise it is a no-op." \<^verbatim>\<open>unmap_region\<close> clears that reference as it erases the
  region from \<^verbatim>\<open>m_regions\<close>, so the reference is live while the region is registered; for a
  region that is not registered \<^verbatim>\<open>unmap_region\<close> changes nothing. The model therefore calls
  it in both cases. \<open>None\<close> is the halt of a failed assertion, else the space afterwards.
\<close>

definition destroy_region ::
  "(VMRegion \<Rightarrow> 'pd \<Rightarrow> 'r \<times> 'pd) \<Rightarrow> 'pd VMSpace \<Rightarrow> VMRegion \<Rightarrow> 'pd VMSpace option" where
  "destroy_region pd_unmap s region =
     (case unmap_region pd_unmap s region of
        (Inl ASSERT_FAILED, s') \<Rightarrow> None
      | (Inl (Errno c), s') \<Rightarrow> Some s'
      | (Inr u, s') \<Rightarrow> Some s')"

subsection \<open>Shared anonymous objects\<close>

record AnonymousVMObject = VMObject +
  m_shm_id :: int
  m_shared_permissions :: "pid_t \<rightharpoonup> VMProt"

text \<open>
  The kernel-wide state the system calls consult: the registry of shared anonymous
  objects by identifier, and the identifiers of the live processes
  (\<^verbatim>\<open>TaskManager::process_for_pid\<close> succeeds exactly on those).
\<close>

record Kernel =
  shared_objects :: "int \<rightharpoonup> AnonymousVMObject"
  tasks :: "pid_t set"

text \<open>
  Modelled from the spec: \<^verbatim>\<open>AnonymousVMObject::get_shared\<close> is not among the sources.
  "\<^verbatim>\<open>get_shared(id)\<close>: look up the registry", with \<^verbatim>\<open>ENOENT\<close> when the identifier is absent.
\<close>

definition get_shared :: "Kernel \<Rightarrow> int \<Rightarrow> error + AnonymousVMObject" where
  "get_shared k ident =
     (case shared_objects k ident of None \<Rightarrow> Inl (Errno ENOENT) | Some obj \<Rightarrow> Inr obj)"

text \<open>
  Modelled from the spec: \<^verbatim>\<open>AnonymousVMObject::get_shared_permissions\<close> is not among the
  sources. "Return the per-pid entry; \<^verbatim>\<open>ENOENT\<close> if not listed."
\<close>

definition get_shared_permissions :: "AnonymousVMObject \<Rightarrow> pid_t \<Rightarrow> error + VMProt" where
  "get_shared_permissions obj p =
     (case m_shared_permissions obj p of None \<Rightarrow> Inl (Errno ENOENT) | Some prot \<Rightarrow> Inr prot)"

text \<open>
  Modelled from the spec: \<^verbatim>\<open>AnonymousVMObject::share\<close> is not among the sources. It "records
  \<^verbatim>\<open>(pid -> prot)\<close> in its sharing table (overwriting any prior entry for \<^verbatim>\<open>pid\<close>)". Its other
  effect, entering an object into the registry on the first call, does not arise for an
  object that \<^verbatim>\<open>get_shared\<close> returned.
\<close>

definition share :: "AnonymousVMObject \<Rightarrow> pid_t \<Rightarrow> VMProt \<Rightarrow> AnonymousVMObject" where
  "share obj p prot = obj\<lparr> m_shared_permissions := (m_shared_permissions obj)(p \<mapsto> prot) \<rparr>"

text \<open>The \<^verbatim>\<open>Ptr<VMObject>\<close> of a shared object: its identity and size.\<close>

definition as_object :: "AnonymousVMObject \<Rightarrow> VMObject" where
  "as_object obj = \<lparr> o_addr = o_addr obj, o_size = o_size obj \<rparr>"

subsection \<open>The process and its system calls\<close>

record 'pd Process =
  pid :: pid_t
  vm_space :: "'pd VMSpace"
  vm_regions :: "VMRegion list"
  m_used_pmem :: size_t
  m_used_shmem :: size_t

record shm =
  shm_ptr :: VirtualAddress
  shm_size :: size_t
  shm_id :: int

text \<open>
  Modelled from the spec: the \<^verbatim>\<open>SHM_*\<close> bits are declared in a header that is not among the
  sources; the spec gives \<^verbatim>\<open>SHM_READ(1) | SHM_WRITE(2) | SHM_SHARE(4)\<close>. The \<^verbatim>\<open>int perms\<close> is
  its 32-bit two's-complement pattern, on which \<^verbatim>\<open>&\<close> and \<^verbatim>\<open>|\<close> work.
\<close>

definition SHM_READ :: "32 word" where "SHM_READ = 1"
definition SHM_WRITE :: "32 word" where "SHM_WRITE = 2"
definition SHM_SHARE :: "32 word" where "SHM_SHARE = 4"

subsubsection \<open>\<^verbatim>\<open>Process::sys_munmap\<close>\<close>

text \<open>
  The loop over \<^verbatim>\<open>_vm_regions\<close>: the first region that matches is erased. \<open>None\<close> when no
  region matches, else the region erased and the list without it.
\<close>

fun munmap_loop ::
  "VirtualAddress \<Rightarrow> size_t \<Rightarrow> VMRegion list \<Rightarrow> (VMRegion \<times> VMRegion list) option" where
  "munmap_loop addr len [] = None"
| "munmap_loop addr len (r # rs) =
     (if r_start r = addr \<and> r_size r = len then Some (r, rs)
      else map_option (apsnd ((#) r)) (munmap_loop addr len rs))"

text \<open>
  \<^verbatim>\<open>_vm_regions\<close> holds the only \<^verbatim>\<open>Arc\<close> of a region (the space's \<^verbatim>\<open>m_regions\<close> holds plain
  pointers), so \<^verbatim>\<open>_vm_regions.erase(i)\<close> ends the region: its destructor runs on the
  process's space before the call returns. Where the destructor halts the kernel the
  call returns nothing, and the state is given as it was.
\<close>

definition sys_munmap ::
  "(VMRegion \<Rightarrow> 'pd \<Rightarrow> 'r \<times> 'pd) \<Rightarrow> 'pd Process \<Rightarrow> VirtualAddress \<Rightarrow> size_t
     \<Rightarrow> int option \<times> 'pd Process" where
  "sys_munmap pd_unmap p addr len =
     (case munmap_loop addr len (vm_regions p) of
        Some (r, rs) \<Rightarrow>
          (case destroy_region pd_unmap (vm_space p) r of
             None \<Rightarrow> (None, p)
           | Some sp \<Rightarrow>
               (Some SUCCESS,
                p\<lparr> m_used_pmem := m_used_pmem p - r_size r, vm_regions := rs, vm_space := sp \<rparr>))
      | None \<Rightarrow> (Some ENOENT, p))"

subsubsection \<open>\<^verbatim>\<open>Process::sys_shmdetach\<close>\<close>

text \<open>
  The loop over \<^verbatim>\<open>_vm_regions\<close> for the first region of the object; erasing it ends the
  region as in \<^verbatim>\<open>sys_munmap\<close>.
\<close>

fun shmdetach_loop :: "VMObject \<Rightarrow> VMRegion list \<Rightarrow> (VMRegion \<times> VMRegion list) option" where
  "shmdetach_loop object [] = None"
| "shmdetach_loop object (r # rs) =
     (if r_object r = object then Some (r, rs)
      else map_option (apsnd ((#) r)) (shmdetach_loop object rs))"

definition sys_shmdetach ::
  "(VMRegion \<Rightarrow> 'pd \<Rightarrow> 'r \<times> 'pd) \<Rightarrow> Kernel \<Rightarrow> 'pd Process \<Rightarrow> int
     \<Rightarrow> int option \<times> 'pd Process" where
  "sys_shmdetach pd_unmap k p ident =
     (case get_shared k ident of
        Inl e \<Rightarrow> (code e, p)
      | Inr obj \<Rightarrow>
          (case shmdetach_loop (as_object obj) (vm_regions p) of
             Some (r, rs) \<Rightarrow>
               (case destroy_region pd_unmap (vm_space p) r of
                  None \<Rightarrow> (None, p)
                | Some sp \<Rightarrow>
                    (Some SUCCESS,
                     p\<lparr> m_used_shmem := m_used_shmem p - o_size obj, vm_regions := rs,
                        vm_space := sp \<rparr>))
           | None \<Rightarrow> (Some ENOENT, p)))"

subsubsection \<open>\<^verbatim>\<open>Process::sys_shmallow\<close>\<close>

definition sys_shmallow :: "Kernel \<Rightarrow> int \<Rightarrow> pid_t \<Rightarrow> 32 word \<Rightarrow> int option \<times> Kernel" where
  "sys_shmallow k ident p perms =
     (if perms AND SHM_SHARE \<noteq> 0 then (Some (- EINVAL), k)
      else if perms AND (SHM_READ OR SHM_WRITE) = 0 then (Some (- EINVAL), k)
      else if perms AND SHM_WRITE \<noteq> 0 \<and> perms AND SHM_READ = 0 then (Some (- EINVAL), k)
      else if p \<notin> tasks k then (Some (- EINVAL), k)
      else case get_shared k ident of
        Inl e \<Rightarrow> (code e, k)
      | Inr obj \<Rightarrow>
          (Some SUCCESS,
           k\<lparr> shared_objects := (shared_objects k)
                (ident \<mapsto> share obj p
                   \<lparr> read = (perms AND SHM_READ \<noteq> 0), write = (perms AND SHM_WRITE \<noteq> 0),
                     execute = False, cow = False \<rparr>) \<rparr>))"

subsubsection \<open>\<^verbatim>\<open>Process::sys_shmattach\<close>\<close>

text \<open>
  The lambda \<^verbatim>\<open>do_shmattach\<close>; the \<^verbatim>\<open>shm\<close> written through the user pointer is returned
  with the result. The source passes a \<^verbatim>\<open>VirtualRange\<close> of the object's size at \<^verbatim>\<open>addr\<close>
  to an overload of \<^verbatim>\<open>map_object\<close> that is not among the sources; the call is taken to
  the fixed-address overload that is, whose range has the object's size as well.
\<close>

definition do_shmattach ::
  "(VMRegion \<Rightarrow> 'pd \<Rightarrow> 'r \<times> 'pd) \<Rightarrow> Kernel \<Rightarrow> 'pd Process \<Rightarrow> int \<Rightarrow> VirtualAddress
     \<Rightarrow> (error + shm) \<times> 'pd Process" where
  "do_shmattach pd_map k p ident addr =
     (case get_shared k ident of
        Inl e \<Rightarrow> (Inl e, p)
      | Inr obj \<Rightarrow>
          (case get_shared_permissions obj (pid p) of
             Inl e \<Rightarrow> (Inl e, p)
           | Inr perms \<Rightarrow>
               if \<not> read perms then (Inl (Errno ENOENT), p)
               else
                 (case (if addr \<noteq> 0
                        then map_object_at pd_map (vm_space p) (as_object obj) addr perms
                        else map_object pd_map (vm_space p) (as_object obj) perms) of
                    (Inl e, sp) \<Rightarrow> (Inl e, p\<lparr> vm_space := sp \<rparr>)
                  | (Inr region, sp) \<Rightarrow>
                      (Inr \<lparr> shm_ptr = r_start region, shm_size = r_size region,
                             shm_id = m_shm_id obj \<rparr>,
                       p\<lparr> vm_space := sp, vm_regions := vm_regions p @ [region],
                          m_used_shmem := m_used_shmem p + r_size region \<rparr>))))"

definition sys_shmattach ::
  "(VMRegion \<Rightarrow> 'pd \<Rightarrow> 'r \<times> 'pd) \<Rightarrow> Kernel \<Rightarrow> 'pd Process \<Rightarrow> int \<Rightarrow> VirtualAddress
     \<Rightarrow> int option \<times> shm option \<times> 'pd Process" where
  "sys_shmattach pd_map k p ident addr =
     (case do_shmattach pd_map k p ident addr of
        (Inl e, p') \<Rightarrow> (code e, None, p')
      | (Inr out, p') \<Rightarrow> (Some SUCCESS, Some out, p'))"

subsection \<open>Consistency of the range map\<close>



fun no_adjacent_free :: "VMSpaceRegion list \<Rightarrow> bool" where
  "no_adjacent_free [] = True"
| "no_adjacent_free [n] = True"
| "no_adjacent_free (n # m # ns) = ((used n \<or> used m) \<and> no_adjacent_free (m # ns))"





text \<open>
  The form of the invariant that the proofs carry: the nodes tile \<open>[a, e)\<close> one after the
  other.
\<close>

fun chain :: "nat \<Rightarrow> VMSpaceRegion list \<Rightarrow> nat \<Rightarrow> bool" where
  "chain a [] e = (a = e)"
| "chain a (n # ns) e = (unat (start n) = a \<and> chain (a + unat (size_n n)) ns e)"

definition tiled :: "'pd VMSpace \<Rightarrow> bool" where
  "tiled s \<longleftrightarrow>
     unat (m_start s) + unat (m_size s) \<le> 2 ^ 32 \<and>
     chain (unat (m_start s)) (m_region_map s) (unat (m_start s) + unat (m_size s)) \<and>
     no_adjacent_free (m_region_map s)"

subsection \<open>Reachable states of the range map\<close>

text \<open>
  \<open>frees_used s address\<close>: the node that \<^verbatim>\<open>free_space\<close> finds at \<open>address\<close> (the first one that
  starts there) is marked used, as it is when \<^verbatim>\<open>unmap_region\<close> frees the range of a live
  region.
\<close>

definition frees_used :: "'pd VMSpace \<Rightarrow> VirtualAddress \<Rightarrow> bool" where
  "frees_used s address =
     (case find (\<lambda>n. start n = address) (m_region_map s) of
        None \<Rightarrow> False
      | Some n \<Rightarrow> used n)"

text \<open>
  \<open>reach only_used s0 s\<close>: \<open>s\<close> is reached from \<open>s0\<close> by calls of \<^verbatim>\<open>alloc_space\<close>,
  \<^verbatim>\<open>alloc_space_at\<close> and \<^verbatim>\<open>free_space\<close> that return (no assertion fails). With \<open>only_used\<close>
  set, every \<^verbatim>\<open>free_space\<close> is moreover applied to a node marked used.
\<close>

inductive reach :: "bool \<Rightarrow> 'pd VMSpace \<Rightarrow> 'pd VMSpace \<Rightarrow> bool"
  for only_used :: bool and s0 :: "'pd VMSpace" where
  reach_init: "reach only_used s0 s0"
| reach_alloc:
    "reach only_used s0 s \<Longrightarrow> alloc_space s sz = (r, s') \<Longrightarrow> r \<noteq> Inl ASSERT_FAILED
       \<Longrightarrow> reach only_used s0 s'"
| reach_alloc_at:
    "reach only_used s0 s \<Longrightarrow> alloc_space_at s sz address = (r, s') \<Longrightarrow> r \<noteq> Inl ASSERT_FAILED
       \<Longrightarrow> reach only_used s0 s'"
| reach_free:
    "reach only_used s0 s \<Longrightarrow> free_space s sz address = (Inr (), s')
       \<Longrightarrow> (only_used \<longrightarrow> frees_used s address)
       \<Longrightarrow> reach only_used s0 s'"

code_pred reach .

text \<open>\<open>fits sz n\<close>: the free node \<open>n\<close> can hold \<open>sz\<close> bytes.\<close>

definition fits :: "size_t \<Rightarrow> VMSpaceRegion \<Rightarrow> bool" where
  "fits sz n \<longleftrightarrow> \<not> used n \<and> sz \<le> size_n n"


subsection \<open>Example states\<close>

text \<open>
  The address space \<open>[0x1000, 0x10000)\<close> of the spec's split/coalesce scenario, and what it
  is after \<^verbatim>\<open>alloc(0x1000)\<close> and then \<^verbatim>\<open>alloc(0x2000)\<close>.
\<close>

definition ex_space :: "unit VMSpace" where
  "ex_space = VMSpace_init 0x1000 0xf000 ()"

definition ex_space_1 :: "unit VMSpace" where
  "ex_space_1 = ex_space\<lparr> m_region_map :=
       [\<lparr> start = 0x1000, size_n = 0x1000, used = True \<rparr>,
        \<lparr> start = 0x2000, size_n = 0xe000, used = False \<rparr>], m_used := 0x1000 \<rparr>"

definition ex_space_2 :: "unit VMSpace" where
  "ex_space_2 = ex_space\<lparr> m_region_map :=
       [\<lparr> start = 0x1000, size_n = 0x1000, used = True \<rparr>,
        \<lparr> start = 0x2000, size_n = 0x2000, used = True \<rparr>,
        \<lparr> start = 0x4000, size_n = 0xc000, used = False \<rparr>], m_used := 0x3000 \<rparr>"



definition ex_prot :: VMProt where
  "ex_prot = \<lparr> read = True, write = True, execute = False, cow = False \<rparr>"

definition ex_object :: VMObject where
  "ex_object = \<lparr> o_addr = 1, o_size = 0x1000 \<rparr>"

definition ex_region :: VMRegion where
  "ex_region = \<lparr> r_object = ex_object, r_start = 0x1000, r_size = 0x1000, r_prot = ex_prot \<rparr>"

text \<open>A page-table mapping step that always reports failure.\<close>

definition pd_map_fails :: "VMRegion \<Rightarrow> unit \<Rightarrow> (error + unit) \<times> unit" where
  "pd_map_fails region pd = (Inl (Errno ENOMEM), pd)"

text \<open>A page-table unmapping step.\<close>

definition pd_unmap_ok :: "VMRegion \<Rightarrow> unit \<Rightarrow> unit \<times> unit" where
  "pd_unmap_ok region pd = ((), pd)"

text \<open>
  A shared object with identifier 7 that process 1 may read and write and process 3 may
  not read; processes 1, 2 and 3 are live. Process 1 holds a private region of three pages
  at \<^verbatim>\<open>0x4000\<close> and a region of the shared object at \<^verbatim>\<open>0x8000\<close>, both mapped at these fixed
  addresses into its space \<open>[0x1000, 0x10000)\<close>.
\<close>

definition ex_shared :: AnonymousVMObject where
  "ex_shared = \<lparr> o_addr = 2, o_size = 0x1000, m_shm_id = 7,
                 m_shared_permissions = [1 \<mapsto> ex_prot, 3 \<mapsto> ex_prot\<lparr> read := False \<rparr>] \<rparr>"

definition ex_kernel :: Kernel where
  "ex_kernel = \<lparr> shared_objects = [7 \<mapsto> ex_shared], tasks = {1, 2, 3} \<rparr>"

definition ex_private_region :: VMRegion where
  "ex_private_region =
     \<lparr> r_object = \<lparr> o_addr = 1, o_size = 0x3000 \<rparr>, r_start = 0x4000, r_size = 0x3000,
       r_prot = ex_prot \<rparr>"

definition ex_shared_region :: VMRegion where
  "ex_shared_region =
     \<lparr> r_object = as_object ex_shared, r_start = 0x8000, r_size = 0x1000, r_prot = ex_prot \<rparr>"

definition ex_process_space :: "unit VMSpace" where
  "ex_process_space =
     \<lparr> m_start = 0x1000, m_size = 0xf000,
       m_region_map =
         [\<lparr> start = 0x1000, size_n = 0x3000, used = False \<rparr>,
          \<lparr> start = 0x4000, size_n = 0x3000, used = True \<rparr>,
          \<lparr> start = 0x7000, size_n = 0x1000, used = False \<rparr>,
          \<lparr> start = 0x8000, size_n = 0x1000, used = True \<rparr>,
          \<lparr> start = 0x9000, size_n = 0x7000, used = False \<rparr>],
       m_used = 0x4000,
       m_regions = [ex_private_region, ex_shared_region],
       m_page_directory = () \<rparr>"

definition ex_process :: "unit Process" where
  "ex_process =
     \<lparr> pid = 1, vm_space = ex_process_space,
       vm_regions = [ex_private_region, ex_shared_region],
       m_used_pmem = 0x3000, m_used_shmem = 0x1000 \<rparr>"


definition ex_space_unmapped_shared :: "unit VMSpace" where
  "ex_space_unmapped_shared =
     ex_process_space\<lparr> m_region_map :=
         [\<lparr> start = 0x1000, size_n = 0x3000, used = False \<rparr>,
          \<lparr> start = 0x4000, size_n = 0x3000, used = True \<rparr>,
          \<lparr> start = 0x7000, size_n = 0x9000, used = False \<rparr>],
       m_used := 0x3000, m_regions := [ex_private_region] \<rparr>"

text \<open>
  The wrapping space \<open>[0xFFFFF000, 0xFFFFF000 + 0x3000)\<close> after \<^verbatim>\<open>alloc_space(0x1000)\<close>, after a
  second \<^verbatim>\<open>alloc_space(0x1000)\<close>, and after \<^verbatim>\<open>free_space(0x1000, 0xFFFFF000)\<close> of the first
  allocation.
\<close>

definition ex_wrapped_a :: "unit VMSpace" where
  "ex_wrapped_a = (VMSpace_init 0xFFFFF000 0x3000 ())\<lparr> m_region_map :=
       [\<lparr> start = 0xFFFFF000, size_n = 0x1000, used = True \<rparr>,
        \<lparr> start = 0, size_n = 0x2000, used = False \<rparr>], m_used := 0x1000 \<rparr>"

definition ex_wrapped_b :: "unit VMSpace" where
  "ex_wrapped_b = (VMSpace_init 0xFFFFF000 0x3000 ())\<lparr> m_region_map :=
       [\<lparr> start = 0xFFFFF000, size_n = 0x1000, used = True \<rparr>,
        \<lparr> start = 0, size_n = 0x1000, used = True \<rparr>,
        \<lparr> start = 0x1000, size_n = 0x1000, used = False \<rparr>], m_used := 0x2000 \<rparr>"

definition ex_wrapped_c :: "unit VMSpace" where
  "ex_wrapped_c = (VMSpace_init 0xFFFFF000 0x3000 ())\<lparr> m_region_map :=
       [\<lparr> start = 0xFFFFF000, size_n = 0x1000, used = False \<rparr>,
        \<lparr> start = 0, size_n = 0x1000, used = True \<rparr>,
        \<lparr> start = 0x1000, size_n = 0x1000, used = False \<rparr>], m_used := 0x1000 \<rparr>"




definition ex_fresh_process :: "unit Process" where
  "ex_fresh_process =
     \<lparr> pid = 1, vm_space = ex_space, vm_regions = [], m_used_pmem = 0, m_used_shmem = 0 \<rparr>"








section \<open>The range map\<close>

subsection \<open>The tiling and word arithmetic\<close>

lemma chain_append: "chain a (xs @ ys) e \<longleftrightarrow> (\<exists>m. chain a xs m \<and> chain m ys e)"
  by (induction xs arbitrary: a) auto

lemma chain_le: "chain a ns e \<Longrightarrow> a \<le> e"
proof (induction ns arbitrary: a)
  case Nil then show ?case by simp
next
  case (Cons n ns)
  from Cons.prems have "chain (a + unat (size_n n)) ns e" by simp
  from Cons.IH[OF this] show ?case by simp
qed


lemma chain_member:
  "chain a ns e \<Longrightarrow> n \<in> set ns \<Longrightarrow> a \<le> unat (start n) \<and> unat (start n) + unat (size_n n) \<le> e"
proof (induction ns arbitrary: a)
  case Nil then show ?case by simp
next
  case (Cons x xs)
  from Cons.prems(1) have c: "unat (start x) = a" "chain (a + unat (size_n x)) xs e" by simp_all
  show ?case
  proof (cases "n = x")
    case True
    with c chain_le[OF c(2)] show ?thesis by simp
  next
    case False
    with Cons.prems(2) have "n \<in> set xs" by simp
    from Cons.IH[OF c(2) this] show ?thesis by simp
  qed
qed

lemma unat_add_no_wrap:
  fixes x y :: "32 word"
  shows "unat x + unat y < 2 ^ 32 \<Longrightarrow> unat (x + y) = unat x + unat y"
  using unat_add_lem[of x y] by simp

lemma unat_lt32: "unat (x :: 32 word) < 2 ^ 32"
  using unsigned_less[of x, where ?'a=nat] by simp

lemma contains_nat:
  assumes "unat (start c) + unat (size_n c) \<le> 2 ^ 32" and "contains c address"
  shows "unat (start c) \<le> unat address \<and> unat address < unat (start c) + unat (size_n c)
         \<and> unat (start c) + unat (size_n c) < 2 ^ 32
         \<and> unat (end_n c) = unat (start c) + unat (size_n c)"
proof -
  from assms(2) have 1: "unat (start c) \<le> unat address" and 2: "unat address < unat (end_n c)"
    by (simp_all add: contains_def word_le_nat_alt word_less_nat_alt)
  have "unat (start c) + unat (size_n c) < 2 ^ 32"
  proof (rule ccontr)
    assume "\<not> ?thesis"
    with assms(1) have eq: "unat (start c) + unat (size_n c) = 2 ^ 32" by simp
    have "unat (end_n c) = (unat (start c) + unat (size_n c)) mod 2 ^ 32"
      by (simp add: end_n_def unat_word_ariths)
    with eq have "unat (end_n c) = 0" by simp
    with 2 show False by simp
  qed
  moreover from this have "unat (end_n c) = unat (start c) + unat (size_n c)"
    by (simp add: end_n_def unat_add_no_wrap)
  ultimately show ?thesis using 1 2 by simp
qed

subsection \<open>The three scans keep the tiling\<close>

lemma alloc_scan_chain:
  "chain a ns e \<Longrightarrow> e \<le> 2 ^ 32 \<Longrightarrow> alloc_scan sz ns = Some (r, ns') \<Longrightarrow> chain a ns' e"
proof (induction ns arbitrary: a ns')
  case Nil
  then show ?case by simp
next
  case (Cons cur rest)
  from Cons.prems(1) have c: "unat (start cur) = a" "chain (a + unat (size_n cur)) rest e"
    by simp_all
  have le: "a + unat (size_n cur) \<le> 2 ^ 32"
    using chain_le[OF c(2)] Cons.prems(2) by simp
  consider (skip) rs where "alloc_scan sz rest = Some (r, rs)" "ns' = cur # rs"
    | (exact) "\<not> used cur" "size_n cur = sz" "ns' = cur\<lparr>used := True\<rparr> # rest"
    | (split) "\<not> used cur" "size_n cur \<noteq> sz" "sz \<le> size_n cur"
        "ns' = \<lparr> start = start cur, size_n = sz, used = True \<rparr>
              # cur\<lparr> start := start cur + sz, size_n := size_n cur - sz \<rparr> # rest"
    using Cons.prems(3) by (auto split: if_splits)
  then show ?case
  proof cases
    case skip
    from Cons.IH[OF c(2) Cons.prems(2) skip(1)] c(1) skip(2) show ?thesis by simp
  next
    case exact
    with c show ?thesis by simp
  next
    case split
    from split(3) have szle: "unat sz \<le> unat (size_n cur)" by (simp add: word_le_nat_alt)
    have "unat sz \<noteq> unat (size_n cur)"
      using split(2) word_unat_eq_iff[of sz "size_n cur"] by auto
    then have "unat (start cur) + unat sz < 2 ^ 32"
      using c(1) le szle by linarith
    then have 1: "unat (start cur + sz) = a + unat sz"
      using c(1) by (simp add: unat_add_no_wrap)
    have 2: "unat (size_n cur - sz) = unat (size_n cur) - unat sz"
      using split(3) by (simp add: unat_sub)
    show ?thesis using c 1 2 szle split(4) by simp
  qed
qed

lemma alloc_at_found_chain:
  assumes c: "unat (start cur) = a" "chain (a + unat (size_n cur)) rest e"
    and e: "e \<le> 2 ^ 32"
    and cont: "contains cur address"
    and fit: "sz \<le> size_n cur - (address - start cur)"
  shows "chain a
           ((if start cur < address
             then [\<lparr> start = start cur, size_n = address - start cur, used = False \<rparr>]
             else [])
            @ [cur\<lparr> start := address, size_n := sz, used := True \<rparr>]
            @ (if end_n cur > address + sz
               then [\<lparr> start = address + sz, size_n = end_n cur - (address + sz), used = False \<rparr>]
               else [])
            @ rest) e"
proof -
  have le: "unat (start cur) + unat (size_n cur) \<le> 2 ^ 32"
    using chain_le[OF c(2)] e c(1) by simp
  from contains_nat[OF le cont] have
    n1: "unat (start cur) \<le> unat address"
    and n2: "unat address < unat (start cur) + unat (size_n cur)"
    and n3: "unat (start cur) + unat (size_n cur) < 2 ^ 32"
    and n4: "unat (end_n cur) = unat (start cur) + unat (size_n cur)" by simp_all
  have d1: "unat (address - start cur) = unat address - unat (start cur)"
    using n1 by (simp add: unat_sub word_le_nat_alt)
  have "address - start cur \<le> size_n cur"
    using d1 n1 n2 by (simp add: word_le_nat_alt)
  then have d2: "unat (size_n cur - (address - start cur)) = unat (size_n cur) - (unat address - unat (start cur))"
    using d1 by (simp add: unat_sub)
  from fit have f: "unat sz \<le> unat (size_n cur) - (unat address - unat (start cur))"
    using d2 by (simp add: word_le_nat_alt)
  have s1: "unat address + unat sz \<le> unat (start cur) + unat (size_n cur)"
    using f n1 n2 by linarith
  then have s2: "unat (address + sz) = unat address + unat sz"
    using n3 by (simp add: unat_add_no_wrap)
  have pre: "start cur < address \<longleftrightarrow> unat (start cur) < unat address"
    by (simp add: word_less_nat_alt)
  have suf: "address + sz < end_n cur \<longleftrightarrow> unat address + unat sz < unat (start cur) + unat (size_n cur)"
    by (simp add: word_less_nat_alt s2 n4)
  have d3: "address + sz < end_n cur \<Longrightarrow>
      unat (end_n cur - (address + sz)) = unat (start cur) + unat (size_n cur) - (unat address + unat sz)"
    using s2 n4 by (simp add: unat_sub word_le_nat_alt word_less_nat_alt)
  show ?thesis
    using c n1 s1 s2 d1 d3 pre suf by (auto simp: chain_append)
qed

lemma alloc_at_scan_chain:
  "chain a ns e \<Longrightarrow> e \<le> 2 ^ 32 \<Longrightarrow> alloc_at_scan sz address ns = Some (r, ns') \<Longrightarrow> chain a ns' e"
proof (induction ns arbitrary: a ns')
  case Nil
  then show ?case by simp
next
  case (Cons cur rest)
  from Cons.prems(1) have c: "unat (start cur) = a" "chain (a + unat (size_n cur)) rest e"
    by simp_all
  show ?case
  proof (cases "contains cur address")
    case False
    with Cons.prems(3) obtain rs where rs: "alloc_at_scan sz address rest = Some (r, rs)" "ns' = cur # rs"
      by auto
    from Cons.IH[OF c(2) Cons.prems(2) rs(1)] c(1) rs(2) show ?thesis by simp
  next
    case True
    show ?thesis
    proof (cases "size_n cur = sz")
      case eq: True
      with True Cons.prems(3) have "ns' = cur\<lparr>used := True\<rparr> # rest"
        by (auto split: if_splits)
      with c show ?thesis by simp
    next
      case neq: False
      with True Cons.prems(3) have fit: "sz \<le> size_n cur - (address - start cur)"
        and ns': "ns' = (if start cur < address
             then [\<lparr> start = start cur, size_n = address - start cur, used = False \<rparr>]
             else [])
            @ [cur\<lparr> start := address, size_n := sz, used := True \<rparr>]
            @ (if end_n cur > address + sz
               then [\<lparr> start = address + sz, size_n = end_n cur - (address + sz), used = False \<rparr>]
               else [])
            @ rest"
        by (auto split: if_splits)
      show ?thesis
        unfolding ns' by (rule alloc_at_found_chain[OF c Cons.prems(2) True fit])
    qed
  qed
qed

lemma chain_used_update [simp]: "chain a (cur\<lparr>used := u\<rparr> # rest) e = chain a (cur # rest) e"
  by simp

lemma merge_prev_chain:
  assumes ch: "chain a (passed @ cur # rest) e" and b: "e < a + 2 ^ 32"
    and m: "merge_prev passed cur = (passed', cur')"
  shows "chain a (passed' @ cur' # rest) e"
proof (cases "passed \<noteq> [] \<and> \<not> used (last passed)")
  case False
  with m have "passed' = passed" "cur' = cur" by (auto simp: merge_prev_def)
  with ch show ?thesis by simp
next
  case True
  then have sp: "passed = butlast passed @ [last passed]" by simp
  define bl lp where "bl = butlast passed" and "lp = last passed"
  from sp have sp': "passed = bl @ [lp]" by (simp add: bl_def lp_def)
  from m True have res: "passed' = bl"
    "cur' = cur\<lparr> start := start cur - size_n lp, size_n := size_n cur + size_n lp \<rparr>"
    by (auto simp: merge_prev_def bl_def lp_def)
  from ch sp' obtain k where k: "chain a bl k" "unat (start lp) = k"
    "unat (start cur) = k + unat (size_n lp)"
    "chain (k + unat (size_n lp) + unat (size_n cur)) rest e"
    by (auto simp: chain_append)
  have "a \<le> k" using chain_le[OF k(1)] .
  moreover have "k + unat (size_n lp) + unat (size_n cur) \<le> e" using chain_le[OF k(4)] .
  ultimately have bound: "unat (size_n cur) + unat (size_n lp) < 2 ^ 32" using b by linarith
  have 1: "unat (size_n cur + size_n lp) = unat (size_n cur) + unat (size_n lp)"
    using bound by (simp add: unat_add_no_wrap)
  have "size_n lp \<le> start cur" using k(3) by (simp add: word_le_nat_alt)
  then have 2: "unat (start cur - size_n lp) = k" using k(3) by (simp add: unat_sub)
  show ?thesis using res k 1 2 by (simp add: chain_append add.commute add.left_commute)
qed

lemma merge_next_chain:
  assumes ch: "chain a (cur # rest) e" and b: "e < a + 2 ^ 32"
    and m: "merge_next cur rest = (cur', rest')"
  shows "chain a (cur' # rest') e"
proof (cases rest)
  case Nil
  with m ch show ?thesis by (simp add: merge_next_def)
next
  case (Cons nxt rs)
  show ?thesis
  proof (cases "used nxt")
    case True
    with m ch Cons show ?thesis by (simp add: merge_next_def)
  next
    case False
    with m Cons have res: "cur' = cur\<lparr> size_n := size_n cur + size_n nxt \<rparr>" "rest' = rs"
      by (simp_all add: merge_next_def)
    from ch Cons have k: "unat (start cur) = a" "unat (start nxt) = a + unat (size_n cur)"
      "chain (a + unat (size_n cur) + unat (size_n nxt)) rs e" by simp_all
    have "a + unat (size_n cur) + unat (size_n nxt) \<le> e" using chain_le[OF k(3)] .
    then have "unat (size_n cur) + unat (size_n nxt) < 2 ^ 32" using b by linarith
    then have "unat (size_n cur + size_n nxt) = unat (size_n cur) + unat (size_n nxt)"
      by (simp add: unat_add_no_wrap)
    with res k show ?thesis by (simp add: add.assoc)
  qed
qed

lemma free_scan_chain:
  "free_scan sz address passed ns = Some ns' \<Longrightarrow> chain a (passed @ ns) e \<Longrightarrow> e < a + 2 ^ 32
     \<Longrightarrow> chain a ns' e"
proof (induction ns arbitrary: passed)
  case Nil
  then show ?case by simp
next
  case (Cons cur rest)
  show ?case
  proof (cases "start cur = address")
    case False
    with Cons.prems(1) have "free_scan sz address (passed @ [cur]) rest = Some ns'" by simp
    from Cons.IH[OF this] Cons.prems(2,3) show ?thesis by simp
  next
    case True
    obtain p' c' where mp: "merge_prev passed (cur\<lparr>used := False\<rparr>) = (p', c')"
      by (cases "merge_prev passed (cur\<lparr>used := False\<rparr>)")
    obtain c'' r' where mn: "merge_next c' rest = (c'', r')"
      by (cases "merge_next c' rest")
    from Cons.prems(1) True mp mn have ns': "ns' = p' @ c'' # r'"
      by (auto split: if_splits)
    from Cons.prems(2) have "chain a (passed @ cur\<lparr>used := False\<rparr> # rest) e"
      by (simp add: chain_append)
    from merge_prev_chain[OF this Cons.prems(3) mp]
    obtain k where k: "chain a p' k" "chain k (c' # rest) e" by (auto simp: chain_append)
    have "e < k + 2 ^ 32" using chain_le[OF k(1)] Cons.prems(3) by linarith
    from merge_next_chain[OF k(2) this mn] k(1) ns' show ?thesis
      by (auto simp: chain_append)
  qed
qed

subsection \<open>The three scans never leave two free neighbours\<close>

lemma naf_Cons:
  "no_adjacent_free (n # ns) \<longleftrightarrow> no_adjacent_free ns \<and> (used n \<or> ns = [] \<or> used (hd ns))"
  by (cases ns) auto

lemma naf_append:
  "no_adjacent_free (xs @ ys) \<longleftrightarrow>
     no_adjacent_free xs \<and> no_adjacent_free ys \<and> (xs = [] \<or> ys = [] \<or> used (last xs) \<or> used (hd ys))"
proof (induction xs)
  case Nil
  then show ?case by simp
next
  case (Cons x xs)
  show ?case
  proof (cases xs)
    case Nil
    then show ?thesis by (auto simp: naf_Cons)
  next
    case (Cons y ys')
    with Cons.IH show ?thesis by (auto simp: naf_Cons)
  qed
qed

lemma alloc_scan_naf:
  "no_adjacent_free ns \<Longrightarrow> alloc_scan sz ns = Some (r, ns') \<Longrightarrow>
     no_adjacent_free ns' \<and> ns' \<noteq> [] \<and> (used (hd ns) \<longrightarrow> used (hd ns'))"
proof (induction ns arbitrary: ns')
  case Nil
  then show ?case by simp
next
  case (Cons cur rest)
  from Cons.prems(1) have nr: "no_adjacent_free rest" and adj: "used cur \<or> rest = [] \<or> used (hd rest)"
    by (simp_all add: naf_Cons)
  consider (skip) rs where "alloc_scan sz rest = Some (r, rs)" "ns' = cur # rs"
    | (exact) "\<not> used cur" "size_n cur = sz" "ns' = cur\<lparr>used := True\<rparr> # rest"
    | (split) "\<not> used cur" "size_n cur \<noteq> sz" "sz \<le> size_n cur"
        "ns' = \<lparr> start = start cur, size_n = sz, used = True \<rparr>
              # cur\<lparr> start := start cur + sz, size_n := size_n cur - sz \<rparr> # rest"
    using Cons.prems(2) by (auto split: if_splits)
  then show ?case
  proof cases
    case skip
    from skip(1) have "rest \<noteq> []" by auto
    with Cons.IH[OF nr skip(1)] adj skip(2) show ?thesis by (auto simp: naf_Cons)
  next
    case exact
    with nr show ?thesis by (simp add: naf_Cons)
  next
    case split
    with nr adj show ?thesis by (simp add: naf_Cons)
  qed
qed

lemma alloc_at_scan_naf:
  "no_adjacent_free ns \<Longrightarrow> alloc_at_scan sz address ns = Some (r, ns') \<Longrightarrow>
     no_adjacent_free ns' \<and> ns' \<noteq> [] \<and> (used (hd ns) \<longrightarrow> used (hd ns'))"
proof (induction ns arbitrary: ns')
  case Nil
  then show ?case by simp
next
  case (Cons cur rest)
  from Cons.prems(1) have nr: "no_adjacent_free rest" and adj: "used cur \<or> rest = [] \<or> used (hd rest)"
    by (simp_all add: naf_Cons)
  show ?case
  proof (cases "contains cur address")
    case False
    with Cons.prems(2) obtain rs where rs: "alloc_at_scan sz address rest = Some (r, rs)" "ns' = cur # rs"
      by auto
    from rs(1) have "rest \<noteq> []" by auto
    with Cons.IH[OF nr rs(1)] adj rs(2) show ?thesis by (auto simp: naf_Cons)
  next
    case True
    with Cons.prems(2) have free: "\<not> used cur" by (auto split: if_splits)
    with adj have adj': "rest = [] \<or> used (hd rest)" by simp
    show ?thesis
    proof (cases "size_n cur = sz")
      case eq: True
      with True free Cons.prems(2) have "ns' = cur\<lparr>used := True\<rparr> # rest" by simp
      with nr show ?thesis by (simp add: naf_Cons)
    next
      case neq: False
      with True free Cons.prems(2) have
        ns': "ns' = (if start cur < address
             then [\<lparr> start = start cur, size_n = address - start cur, used = False \<rparr>]
             else [])
            @ [cur\<lparr> start := address, size_n := sz, used := True \<rparr>]
            @ (if end_n cur > address + sz
               then [\<lparr> start = address + sz, size_n = end_n cur - (address + sz), used = False \<rparr>]
               else [])
            @ rest"
        by (auto split: if_splits)
      show ?thesis unfolding ns' using nr adj' free by (auto simp: naf_Cons)
    qed
  qed
qed

lemma merge_prev_naf:
  assumes "no_adjacent_free passed" and "merge_prev passed cur = (passed', cur')"
  shows "no_adjacent_free passed' \<and> (passed' = [] \<or> used (last passed')) \<and> used cur' = used cur"
proof (cases "passed \<noteq> [] \<and> \<not> used (last passed)")
  case False
  with assms show ?thesis by (auto simp: merge_prev_def)
next
  case True
  then obtain bl lp where sp: "passed = bl @ [lp]" by (cases passed rule: rev_cases) auto
  with True have lp: "\<not> used lp" by simp
  from assms(1) sp lp have "no_adjacent_free bl \<and> (bl = [] \<or> used (last bl))"
    by (simp add: naf_append)
  with sp lp assms(2) show ?thesis by (auto simp: merge_prev_def)
qed

lemma merge_next_naf:
  assumes "no_adjacent_free rest" and "merge_next cur rest = (cur', rest')"
  shows "no_adjacent_free rest' \<and> (rest' = [] \<or> used (hd rest')) \<and> used cur' = used cur"
proof (cases rest)
  case Nil
  with assms show ?thesis by (simp add: merge_next_def)
next
  case (Cons nxt rs)
  with assms show ?thesis by (auto simp: merge_next_def naf_Cons split: if_splits)
qed

lemma free_scan_naf:
  "free_scan sz address passed ns = Some ns' \<Longrightarrow> no_adjacent_free (passed @ ns)
     \<Longrightarrow> no_adjacent_free ns'"
proof (induction ns arbitrary: passed)
  case Nil
  then show ?case by simp
next
  case (Cons cur rest)
  show ?case
  proof (cases "start cur = address")
    case False
    with Cons.prems(1) have "free_scan sz address (passed @ [cur]) rest = Some ns'" by simp
    from Cons.IH[OF this] Cons.prems(2) show ?thesis by simp
  next
    case True
    obtain p' c' where mp: "merge_prev passed (cur\<lparr>used := False\<rparr>) = (p', c')"
      by (cases "merge_prev passed (cur\<lparr>used := False\<rparr>)")
    obtain c'' r' where mn: "merge_next c' rest = (c'', r')"
      by (cases "merge_next c' rest")
    from Cons.prems(1) True mp mn have ns': "ns' = p' @ c'' # r'"
      by (auto split: if_splits)
    from Cons.prems(2) have np: "no_adjacent_free passed" and nr: "no_adjacent_free rest"
      by (simp_all add: naf_append naf_Cons)
    from merge_prev_naf[OF np mp] merge_next_naf[OF nr mn] ns'
    show ?thesis by (auto simp: naf_append naf_Cons)
  qed
qed

subsection \<open>The bytes marked used\<close>









subsection \<open>From the tiling to the listed properties\<close>

lemma chain_sorted: "chain a ns e \<Longrightarrow> sorted (map start ns)"
proof (induction ns arbitrary: a)
  case Nil
  then show ?case by simp
next
  case (Cons n ns)
  from Cons.prems have c: "unat (start n) = a" "chain (a + unat (size_n n)) ns e" by simp_all
  have "\<forall>m \<in> set ns. start n \<le> start m"
  proof
    fix m assume "m \<in> set ns"
    from chain_member[OF c(2) this] c(1) show "start n \<le> start m"
      by (simp add: word_le_nat_alt)
  qed
  with Cons.IH[OF c(2)] show ?case by simp
qed







subsection \<open>Invariants of the reachable states\<close>

lemma alloc_space_tiled:
  assumes "tiled s" and "alloc_space s sz = (r, s')"
  shows "tiled s'"
proof (cases "sz mod PAGE_SIZE \<noteq> 0 \<or> alloc_scan sz (m_region_map s) = None")
  case True
  with assms(2) have "s' = s" by (auto simp: alloc_space_def split: if_splits)
  with assms(1) show ?thesis by simp
next
  case False
  then obtain a ns where sc: "alloc_scan sz (m_region_map s) = Some (a, ns)" by auto
  with False assms(2) have s': "s' = s\<lparr> m_region_map := ns, m_used := m_used s + sz \<rparr>"
    by (auto simp: alloc_space_def)
  from assms(1) have t: "unat (m_start s) + unat (m_size s) \<le> 2 ^ 32"
    "chain (unat (m_start s)) (m_region_map s) (unat (m_start s) + unat (m_size s))"
    "no_adjacent_free (m_region_map s)" by (simp_all add: tiled_def)
  from alloc_scan_chain[OF t(2) t(1) sc] alloc_scan_naf[OF t(3) sc] t(1) s'
  show ?thesis by (simp add: tiled_def)
qed

lemma alloc_space_at_tiled:
  assumes "tiled s" and "alloc_space_at s sz address = (r, s')"
  shows "tiled s'"
proof (cases "address mod PAGE_SIZE \<noteq> 0 \<or> sz mod PAGE_SIZE \<noteq> 0
              \<or> alloc_at_scan sz address (m_region_map s) = None")
  case True
  with assms(2) have "s' = s" by (auto simp: alloc_space_at_def split: if_splits)
  with assms(1) show ?thesis by simp
next
  case False
  then obtain a ns where sc: "alloc_at_scan sz address (m_region_map s) = Some (a, ns)" by auto
  with False assms(2) have s': "s' = s\<lparr> m_region_map := ns, m_used := m_used s + sz \<rparr>"
    by (auto simp: alloc_space_at_def)
  from assms(1) have t: "unat (m_start s) + unat (m_size s) \<le> 2 ^ 32"
    "chain (unat (m_start s)) (m_region_map s) (unat (m_start s) + unat (m_size s))"
    "no_adjacent_free (m_region_map s)" by (simp_all add: tiled_def)
  from alloc_at_scan_chain[OF t(2) t(1) sc] alloc_at_scan_naf[OF t(3) sc] t(1) s'
  show ?thesis by (simp add: tiled_def)
qed

lemma free_space_tiled:
  assumes "tiled s" and "free_space s sz address = (r, s')"
  shows "tiled s'"
proof (cases "sz mod PAGE_SIZE \<noteq> 0 \<or> address mod PAGE_SIZE \<noteq> 0
              \<or> free_scan sz address [] (m_region_map s) = None")
  case True
  with assms(2) have "s' = s" by (auto simp: free_space_def split: if_splits)
  with assms(1) show ?thesis by simp
next
  case False
  then obtain ns where sc: "free_scan sz address [] (m_region_map s) = Some ns" by auto
  with False assms(2) have s': "s' = s\<lparr> m_region_map := ns, m_used := m_used s - sz \<rparr>"
    by (auto simp: free_space_def)
  from assms(1) have t: "unat (m_start s) + unat (m_size s) \<le> 2 ^ 32"
    "chain (unat (m_start s)) ([] @ m_region_map s) (unat (m_start s) + unat (m_size s))"
    "no_adjacent_free ([] @ m_region_map s)" by (simp_all add: tiled_def)
  have b: "unat (m_start s) + unat (m_size s) < unat (m_start s) + 2 ^ 32"
    using unat_lt32[of "m_size s"] by simp
  from free_scan_chain[OF sc t(2) b] free_scan_naf[OF sc t(3)] t(1) s'
  show ?thesis by (simp add: tiled_def)
qed

lemma init_tiled: "unat st + unat sz \<le> 2 ^ 32 \<Longrightarrow> tiled (VMSpace_init st sz pd)"
  by (simp add: tiled_def VMSpace_init_def)

lemma reach_tiled: "reach b s0 s \<Longrightarrow> tiled s0 \<Longrightarrow> tiled s"
proof (induction rule: reach.induct)
  case reach_init
  then show ?case .
next
  case (reach_alloc s sz r s')
  then show ?case using alloc_space_tiled by blast
next
  case (reach_alloc_at s sz address r s')
  then show ?case using alloc_space_at_tiled by blast
next
  case (reach_free s sz address s')
  then show ?case using free_space_tiled by blast
qed







subsection \<open>Consistency of every reachable state\<close>




subsection \<open>First fit\<close>

lemma alloc_scan_none: "\<forall>n \<in> set ns. \<not> fits sz n \<Longrightarrow> alloc_scan sz ns = None"
  by (induction ns) (auto simp: fits_def)

lemma alloc_scan_first_fit:
  "\<forall>m \<in> set pre. \<not> fits sz m \<Longrightarrow> fits sz n \<Longrightarrow>
   alloc_scan sz (pre @ n # post) =
     Some (start n,
           pre @ (if size_n n = sz then [n\<lparr>used := True\<rparr>]
                  else [\<lparr> start = start n, size_n = sz, used = True \<rparr>,
                        \<lparr> start = start n + sz, size_n = size_n n - sz, used = False \<rparr>]) @ post)"
proof (induction pre)
  case Nil
  then show ?case by (simp add: fits_def)
next
  case (Cons x xs)
  from Cons.prems have x: "\<not> fits sz x" and xs: "\<forall>m \<in> set xs. \<not> fits sz m" by simp_all
  from Cons.IH[OF xs Cons.prems(2)] x show ?case
    by (auto simp: fits_def)
qed

text \<open>
  Claim C5, as the code has it. In a reachable state and for a page-aligned size,
  \<^verbatim>\<open>alloc_space\<close> returns \<^verbatim>\<open>ENOMEM\<close> and changes nothing when no free node is large enough.
  Otherwise let \<open>n\<close> be the first free node that is large enough: when its size is the
  requested one it is marked used; when it is larger, a used node of exactly the requested
  size is split off at its start and the rest stays behind it as a free node. In both
  cases the start of \<open>n\<close> is returned and \<^verbatim>\<open>m_used\<close> grows by the size. If the range of the
  space does not wrap past the end of the 32-bit address space, no free node that fits
  starts lower.
\<close>

theorem alloc_space_first_fit:
  assumes "reach only_used (VMSpace_init st sz0 pd) s"
    and "sz mod PAGE_SIZE = 0"
  shows "((\<forall>n \<in> set (m_region_map s). \<not> fits sz n) \<longrightarrow>
            alloc_space s sz = (Inl (Errno ENOMEM), s))
       \<and> (\<forall>pre n post.
            m_region_map s = pre @ n # post \<and> (\<forall>m \<in> set pre. \<not> fits sz m) \<and> fits sz n \<longrightarrow>
              (size_n n = sz \<longrightarrow>
                 alloc_space s sz =
                   (Inr (start n),
                    s\<lparr> m_region_map := pre @ n\<lparr>used := True\<rparr> # post,
                       m_used := m_used s + sz \<rparr>))
            \<and> (size_n n \<noteq> sz \<longrightarrow>
                 alloc_space s sz =
                   (Inr (start n),
                    s\<lparr> m_region_map :=
                         pre @ \<lparr> start = start n, size_n = sz, used = True \<rparr>
                             # \<lparr> start = start n + sz, size_n = size_n n - sz, used = False \<rparr>
                             # post,
                       m_used := m_used s + sz \<rparr>))
            \<and> (unat st + unat sz0 \<le> 2 ^ 32 \<longrightarrow>
                 (\<forall>m \<in> set (m_region_map s). fits sz m \<longrightarrow> start n \<le> start m)))"
proof -
  have none: "(\<forall>n \<in> set (m_region_map s). \<not> fits sz n) \<longrightarrow>
            alloc_space s sz = (Inl (Errno ENOMEM), s)"
    using alloc_scan_none[of "m_region_map s" sz] assms(2) by (simp add: alloc_space_def)
  have found: "(size_n n = sz \<longrightarrow>
                 alloc_space s sz =
                   (Inr (start n),
                    s\<lparr> m_region_map := pre @ n\<lparr>used := True\<rparr> # post,
                       m_used := m_used s + sz \<rparr>))
            \<and> (size_n n \<noteq> sz \<longrightarrow>
                 alloc_space s sz =
                   (Inr (start n),
                    s\<lparr> m_region_map :=
                         pre @ \<lparr> start = start n, size_n = sz, used = True \<rparr>
                             # \<lparr> start = start n + sz, size_n = size_n n - sz, used = False \<rparr>
                             # post,
                       m_used := m_used s + sz \<rparr>))
            \<and> (unat st + unat sz0 \<le> 2 ^ 32 \<longrightarrow>
                 (\<forall>m \<in> set (m_region_map s). fits sz m \<longrightarrow> start n \<le> start m))"
    if h: "m_region_map s = pre @ n # post \<and> (\<forall>m \<in> set pre. \<not> fits sz m) \<and> fits sz n"
    for pre n post
  proof -
    from h have sc: "alloc_scan sz (m_region_map s) =
       Some (start n,
             pre @ (if size_n n = sz then [n\<lparr>used := True\<rparr>]
                    else [\<lparr> start = start n, size_n = sz, used = True \<rparr>,
                          \<lparr> start = start n + sz, size_n = size_n n - sz, used = False \<rparr>]) @ post)"
      using alloc_scan_first_fit[of pre sz n post] by simp
    have low: "\<forall>m \<in> set (m_region_map s). fits sz m \<longrightarrow> start n \<le> start m"
      if nw: "unat st + unat sz0 \<le> 2 ^ 32"
    proof -
      have t: "tiled s" using reach_tiled[OF assms(1) init_tiled[OF nw]] .
      then have "sorted (map start (m_region_map s))"
        using chain_sorted by (auto simp: tiled_def)
      with h have "\<forall>x \<in> set post. start n \<le> start x"
        by (simp add: sorted_append)
      with h show ?thesis by auto
    qed
    from sc assms(2) low show ?thesis by (simp add: alloc_space_def)
  qed
  from none found show ?thesis by blast
qed

text \<open>
  The first-fit rule at work on the state after \<^verbatim>\<open>alloc(0x1000)\<close>: \<^verbatim>\<open>alloc(0x2000)\<close> splits the
  free node at \<^verbatim>\<open>0x2000\<close>, the lowest free node, and \<^verbatim>\<open>alloc(0x10000)\<close> finds no node.
\<close>

theorem alloc_space_first_fit_witness:
  "reach True (VMSpace_init 0x1000 0xf000 ()) ex_space_1
   \<and> (0x2000 :: 32 word) mod PAGE_SIZE = 0
   \<and> unat (0x1000 :: 32 word) + unat (0xf000 :: 32 word) \<le> 2 ^ 32
   \<and> alloc_space ex_space_1 0x2000 = (Inr 0x2000, ex_space_2)
   \<and> list_all (\<lambda>m. fits 0x2000 m = (0x2000 \<le> start m \<and> fits 0x2000 m)) (m_region_map ex_space_1)
   \<and> alloc_space ex_space_1 0x10000 = (Inl (Errno ENOMEM), ex_space_1)"
proof -
  have h: "unat (0x1000 :: 32 word) + unat (0xf000 :: 32 word) \<le> 2 ^ 32" by simp
  have "alloc_space (VMSpace_init 0x1000 0xf000 ()) 0x1000 = (Inr 0x1000, ex_space_1)"
    by (simp add: ex_space_def ex_space_1_def alloc_space_def VMSpace_init_def PAGE_SIZE_def)
  then have r: "reach True (VMSpace_init 0x1000 0xf000 ()) ex_space_1"
    by (rule reach_alloc[OF reach_init]) simp
  have a1: "(0x2000 :: 32 word) mod PAGE_SIZE = 0" by (simp add: PAGE_SIZE_def)
  have a2: "(0x10000 :: 32 word) mod PAGE_SIZE = 0" by (simp add: PAGE_SIZE_def)
  have m: "m_region_map ex_space_1 =
      [\<lparr> start = 0x1000, size_n = 0x1000, used = True \<rparr>] @
        \<lparr> start = 0x2000, size_n = 0xe000, used = False \<rparr> # []"
    by (simp add: ex_space_1_def ex_space_def VMSpace_init_def)
  note t = alloc_space_first_fit[OF r a1, THEN conjunct2, rule_format,
         of "[\<lparr> start = 0x1000, size_n = 0x1000, used = True \<rparr>]"
            "\<lparr> start = 0x2000, size_n = 0xe000, used = False \<rparr>" "[]"]
  have d: "m_region_map ex_space_1 =
      [\<lparr> start = 0x1000, size_n = 0x1000, used = True \<rparr>] @
        \<lparr> start = 0x2000, size_n = 0xe000, used = False \<rparr> # [] \<and>
     (\<forall>m \<in> set [\<lparr> start = 0x1000, size_n = 0x1000, used = True \<rparr>]. \<not> fits 0x2000 m) \<and>
     fits 0x2000 \<lparr> start = 0x2000, size_n = 0xe000, used = False \<rparr>"
    using m by (simp add: fits_def)
  from t[OF d] have
    1: "alloc_space ex_space_1 0x2000 = (Inr 0x2000, ex_space_2)"
    by (simp add: ex_space_1_def ex_space_2_def ex_space_def VMSpace_init_def)
  from t[OF d] h have
    low: "\<forall>m \<in> set (m_region_map ex_space_1). fits 0x2000 m \<longrightarrow> 0x2000 \<le> start m"
    by simp
  then have 3: "list_all (\<lambda>m. fits 0x2000 m = (0x2000 \<le> start m \<and> fits 0x2000 m))
                  (m_region_map ex_space_1)"
    by (auto simp: list_all_iff)
  from alloc_space_first_fit[OF r a2, THEN conjunct1] m
  have 2: "alloc_space ex_space_1 0x10000 = (Inl (Errno ENOMEM), ex_space_1)"
    by (simp add: fits_def)
  from h r a1 1 2 3 show ?thesis by simp
qed

text \<open>
  Claim C5 as stated fails in a space whose range wraps past the end of the address
  space. In \<open>[0xFFFFF000, 0xFFFFF000 + 0x3000)\<close>, two allocations of a page and the release
  of the first leave a free node at \<^verbatim>\<open>0xFFFFF000\<close> at the head and a free node at \<^verbatim>\<open>0x1000\<close>
  behind it; \<^verbatim>\<open>alloc_space(0x1000)\<close> returns \<^verbatim>\<open>0xFFFFF000\<close>, though the node at the lower
  address \<^verbatim>\<open>0x1000\<close> fits.
\<close>

theorem alloc_space_first_fit_counterexample:
  "reach True (VMSpace_init 0xFFFFF000 0x3000 ()) ex_wrapped_c
   \<and> (0x1000 :: 32 word) mod PAGE_SIZE = 0
   \<and> alloc_space ex_wrapped_c 0x1000 = (Inr 0xFFFFF000, ex_wrapped_b)
   \<and> \<lparr> start = 0x1000, size_n = 0x1000, used = False \<rparr> \<in> set (m_region_map ex_wrapped_c)
   \<and> fits 0x1000 \<lparr> start = 0x1000, size_n = 0x1000, used = False \<rparr>
   \<and> (0x1000 :: 32 word) < 0xFFFFF000"
proof -
  have "alloc_space (VMSpace_init 0xFFFFF000 0x3000 ()) 0x1000 = (Inr 0xFFFFF000, ex_wrapped_a)"
    by (simp add: alloc_space_def VMSpace_init_def PAGE_SIZE_def ex_wrapped_a_def)
  then have ra: "reach True (VMSpace_init 0xFFFFF000 0x3000 ()) ex_wrapped_a"
    by (rule reach_alloc[OF reach_init]) simp
  have "alloc_space ex_wrapped_a 0x1000 = (Inr 0, ex_wrapped_b)"
    by (simp add: alloc_space_def VMSpace_init_def PAGE_SIZE_def ex_wrapped_a_def ex_wrapped_b_def)
  then have rb: "reach True (VMSpace_init 0xFFFFF000 0x3000 ()) ex_wrapped_b"
    by (rule reach_alloc[OF ra]) simp
  have f: "free_space ex_wrapped_b 0x1000 0xFFFFF000 = (Inr (), ex_wrapped_c)"
    by (simp add: free_space_def VMSpace_init_def PAGE_SIZE_def ex_wrapped_b_def ex_wrapped_c_def
        merge_prev_def merge_next_def)
  have fu: "True \<longrightarrow> frees_used ex_wrapped_b 0xFFFFF000"
    by (simp add: frees_used_def ex_wrapped_b_def VMSpace_init_def)
  have rc: "reach True (VMSpace_init 0xFFFFF000 0x3000 ()) ex_wrapped_c"
    by (rule reach_free[OF rb f fu])
  have a: "alloc_space ex_wrapped_c 0x1000 = (Inr 0xFFFFF000, ex_wrapped_b)"
    by (simp add: alloc_space_def VMSpace_init_def PAGE_SIZE_def ex_wrapped_b_def ex_wrapped_c_def)
  have rest: "(0x1000 :: 32 word) mod PAGE_SIZE = 0"
    "\<lparr> start = 0x1000, size_n = 0x1000, used = False \<rparr> \<in> set (m_region_map ex_wrapped_c)"
    "fits 0x1000 \<lparr> start = 0x1000, size_n = 0x1000, used = False \<rparr>"
    "(0x1000 :: 32 word) < 0xFFFFF000"
    by (simp_all add: PAGE_SIZE_def ex_wrapped_c_def fits_def)
  from rc a rest show ?thesis by simp
qed

subsection \<open>Fixed allocation, and freeing it again\<close>

text \<open>
  What a successful \<^verbatim>\<open>alloc_space_at\<close> does to the list: \<open>n\<close> is the first node that contains
  the address, and it is free. In the branch for a node of exactly the requested size the
  address returned is the start of \<open>n\<close>; in the other branch it is the address asked for.
\<close>

lemma alloc_at_scan_found:
  "alloc_at_scan sz a ns = Some (r, ns') \<Longrightarrow>
   \<exists>pre n post. ns = pre @ n # post \<and> (\<forall>m \<in> set pre. \<not> contains m a) \<and> contains n a \<and> \<not> used n
     \<and> (if size_n n = sz then r = start n \<and> ns' = pre @ n\<lparr>used := True\<rparr> # post
         else sz \<le> size_n n - (a - start n) \<and> r = a
              \<and> ns' = pre
                  @ (if start n < a
                     then [\<lparr> start = start n, size_n = a - start n, used = False \<rparr>] else [])
                  @ [n\<lparr> start := a, size_n := sz, used := True \<rparr>]
                  @ (if end_n n > a + sz
                     then [\<lparr> start = a + sz, size_n = end_n n - (a + sz), used = False \<rparr>] else [])
                  @ post)"
proof (induction ns arbitrary: ns')
  case Nil
  then show ?case by simp
next
  case (Cons cur rest)
  show ?case
  proof (cases "contains cur a")
    case False
    with Cons.prems obtain rs where rs: "alloc_at_scan sz a rest = Some (r, rs)" "ns' = cur # rs"
      by auto
    from Cons.IH[OF rs(1)] obtain pre n post where
      h: "rest = pre @ n # post" "\<forall>m \<in> set pre. \<not> contains m a" "contains n a" "\<not> used n"
      "if size_n n = sz then r = start n \<and> rs = pre @ n\<lparr>used := True\<rparr> # post
         else sz \<le> size_n n - (a - start n) \<and> r = a
              \<and> rs = pre
                  @ (if start n < a
                     then [\<lparr> start = start n, size_n = a - start n, used = False \<rparr>] else [])
                  @ [n\<lparr> start := a, size_n := sz, used := True \<rparr>]
                  @ (if end_n n > a + sz
                     then [\<lparr> start = a + sz, size_n = end_n n - (a + sz), used = False \<rparr>] else [])
                  @ post"
      by blast
    show ?thesis
      apply (rule exI[of _ "cur # pre"], rule exI[of _ n], rule exI[of _ post])
      using h False rs(2) by (auto split: if_splits)
  next
    case True
    show ?thesis
      apply (rule exI[of _ "[]"], rule exI[of _ cur], rule exI[of _ rest])
      using True Cons.prems by (auto split: if_splits)
  qed
qed

text \<open>\<^verbatim>\<open>free_space\<close> stops at the first node that starts at the address.\<close>

lemma free_scan_found:
  "\<forall>m \<in> set xs. start m \<noteq> a \<Longrightarrow> start c = a \<Longrightarrow> size_n c = sz \<Longrightarrow>
   free_scan sz a passed (xs @ c # rest) =
     (let (p', c') = merge_prev (passed @ xs) (c\<lparr>used := False\<rparr>);
          (c'', r') = merge_next c' rest
      in Some (p' @ c'' # r'))"
  by (induction xs arbitrary: passed) auto

lemma fit_nat:
  assumes le: "unat (start cur) + unat (size_n cur) \<le> 2 ^ 32"
    and cont: "contains cur address"
    and fit: "sz \<le> size_n cur - (address - start cur)"
  shows "unat (start cur) \<le> unat address"
    and "unat address + unat sz \<le> unat (start cur) + unat (size_n cur)"
    and "unat (start cur) + unat (size_n cur) < 2 ^ 32"
    and "unat (end_n cur) = unat (start cur) + unat (size_n cur)"
    and "unat (address + sz) = unat address + unat sz"
proof -
  from contains_nat[OF le cont] have
    n1: "unat (start cur) \<le> unat address"
    and n2: "unat address < unat (start cur) + unat (size_n cur)"
    and n3: "unat (start cur) + unat (size_n cur) < 2 ^ 32"
    and n4: "unat (end_n cur) = unat (start cur) + unat (size_n cur)" by simp_all
  have d1: "unat (address - start cur) = unat address - unat (start cur)"
    using n1 by (simp add: unat_sub word_le_nat_alt)
  have "address - start cur \<le> size_n cur"
    using d1 n1 n2 by (simp add: word_le_nat_alt)
  then have d2: "unat (size_n cur - (address - start cur)) = unat (size_n cur) - (unat address - unat (start cur))"
    using d1 by (simp add: unat_sub)
  from fit have f: "unat sz \<le> unat (size_n cur) - (unat address - unat (start cur))"
    using d2 by (simp add: word_le_nat_alt)
  show s1: "unat address + unat sz \<le> unat (start cur) + unat (size_n cur)"
    using f n1 n2 by linarith
  then show "unat (address + sz) = unat address + unat sz"
    using n3 by (simp add: unat_add_no_wrap)
  show "unat (start cur) \<le> unat address" by (rule n1)
  show "unat (start cur) + unat (size_n cur) < 2 ^ 32" by (rule n3)
  show "unat (end_n cur) = unat (start cur) + unat (size_n cur)" by (rule n4)
qed

text \<open>
  Where \<^verbatim>\<open>alloc_space_at\<close> returns the address it was asked for and no node of the state is
  empty, freeing the range again restores the state.
\<close>

lemma round_trip_nodes:
  assumes ch: "chain k ns e" and e: "e \<le> 2 ^ 32" and naf: "no_adjacent_free ns"
    and pos: "\<forall>n \<in> set ns. size_n n \<noteq> 0"
    and al: "alloc_at_scan sz a ns = Some (a, ns')"
  shows "free_scan sz a [] ns' = Some ns"
proof -
  from alloc_at_scan_found[OF al] obtain pre n post where
    ns: "ns = pre @ n # post" and npre: "\<forall>m \<in> set pre. \<not> contains m a"
    and cont: "contains n a" and free: "\<not> used n"
    and res: "if size_n n = sz then a = start n \<and> ns' = pre @ n\<lparr>used := True\<rparr> # post
         else sz \<le> size_n n - (a - start n) \<and> a = a
              \<and> ns' = pre
                  @ (if start n < a
                     then [\<lparr> start = start n, size_n = a - start n, used = False \<rparr>] else [])
                  @ [n\<lparr> start := a, size_n := sz, used := True \<rparr>]
                  @ (if end_n n > a + sz
                     then [\<lparr> start = a + sz, size_n = end_n n - (a + sz), used = False \<rparr>] else [])
                  @ post"
    by blast
  from ch ns obtain j where j: "chain k pre j" "unat (start n) = j"
    "chain (j + unat (size_n n)) post e" by (auto simp: chain_append)
  have le: "unat (start n) + unat (size_n n) \<le> 2 ^ 32"
    using chain_le[OF j(3)] j(2) e by simp
  from contains_nat[OF le cont] have sa: "unat (start n) \<le> unat a" by simp
  have pre_ne: "\<forall>m \<in> set pre. start m \<noteq> a"
  proof
    fix m assume m: "m \<in> set pre"
    from chain_member[OF j(1) m] have "unat (start m) + unat (size_n m) \<le> j" by simp
    moreover from pos m ns have "unat (size_n m) \<noteq> 0" by (simp add: unat_eq_0)
    ultimately have "unat (start m) < unat a" using sa j(2) by linarith
    then show "start m \<noteq> a" by auto
  qed
  from naf ns free have lp: "pre = [] \<or> used (last pre)" and hp: "post = [] \<or> used (hd post)"
    by (auto simp: naf_append naf_Cons)
  have mp0: "\<And>c. merge_prev pre c = (pre, c)" using lp by (auto simp: merge_prev_def)
  have mn0: "\<And>c. merge_next c post = (c, post)"
    using hp by (cases post) (auto simp: merge_next_def)
  have nfree: "n\<lparr>used := False\<rparr> = n" using free by simp
  show ?thesis
  proof (cases "size_n n = sz")
    case True
    with res have a: "a = start n" and ns': "ns' = pre @ n\<lparr>used := True\<rparr> # post" by simp_all
    have "free_scan sz a [] (pre @ n\<lparr>used := True\<rparr> # post) = Some (pre @ n # post)"
      using free_scan_found[OF pre_ne, of "n\<lparr>used := True\<rparr>" sz "[]" post] a True mp0 mn0 nfree
      by simp
    with ns ns' show ?thesis by simp
  next
    case False
    with res have fit: "sz \<le> size_n n - (a - start n)"
      and ns': "ns' = pre
                  @ (if start n < a
                     then [\<lparr> start = start n, size_n = a - start n, used = False \<rparr>] else [])
                  @ [n\<lparr> start := a, size_n := sz, used := True \<rparr>]
                  @ (if end_n n > a + sz
                     then [\<lparr> start = a + sz, size_n = end_n n - (a + sz), used = False \<rparr>] else [])
                  @ post"
      by simp_all
    note f = fit_nat[OF le cont fit]
    define P where "P = (if start n < a
                     then [\<lparr> start = start n, size_n = a - start n, used = False \<rparr>] else [])"
    define S where "S = (if end_n n > a + sz
                     then [\<lparr> start = a + sz, size_n = end_n n - (a + sz), used = False \<rparr>] else [])"
    define U where "U = n\<lparr> start := a, size_n := sz, used := True \<rparr>"
    have ns'': "ns' = (pre @ P) @ U # (S @ post)" using ns' by (simp add: P_def S_def U_def)
    have "\<forall>m \<in> set P. start m \<noteq> a"
    proof (cases "start n < a")
      case True
      then have "start n \<noteq> a" by auto
      with True show ?thesis by (simp add: P_def)
    next
      case False
      then show ?thesis by (simp add: P_def)
    qed
    with pre_ne have xs_ne: "\<forall>m \<in> set (pre @ P). start m \<noteq> a"
      by auto
    have fs: "free_scan sz a [] ns' =
       (let (p', c') = merge_prev (pre @ P) (U\<lparr>used := False\<rparr>);
            (c'', r') = merge_next c' (S @ post)
        in Some (p' @ c'' # r'))"
      unfolding ns''
      using free_scan_found[OF xs_ne, of U sz "[]" "S @ post"] by (simp add: U_def)
    have mp: "merge_prev (pre @ P) (U\<lparr>used := False\<rparr>)
                = (pre, \<lparr> start = start n, size_n = sz + (a - start n), used = False \<rparr>)"
    proof (cases "start n < a")
      case True
      then show ?thesis by (simp add: P_def U_def merge_prev_def)
    next
      case False
      with sa have "start n = a" by (simp add: word_less_nat_alt word_unat_eq_iff)
      with False mp0 show ?thesis by (simp add: P_def U_def)
    qed
    have mn: "merge_next \<lparr> start = start n, size_n = sz + (a - start n), used = False \<rparr> (S @ post)
                = (n, post)"
    proof (cases "end_n n > a + sz")
      case True
      then show ?thesis using free by (simp add: S_def merge_next_def end_n_def)
    next
      case False
      then have "\<not> unat (a + sz) < unat (end_n n)" by (simp add: word_less_nat_alt)
      with f have "unat (a + sz) = unat (end_n n)" by linarith
      then have "a + sz = start n + size_n n" by (simp add: word_unat_eq_iff end_n_def)
      then have "sz + (a - start n) = size_n n" by (simp add: algebra_simps)
      with False mn0 free show ?thesis by (simp add: S_def)
    qed
    from fs mp mn ns show ?thesis by simp
  qed
qed

lemma alloc_at_free_round_trip:
  assumes t: "tiled s" and pos: "\<forall>n \<in> set (m_region_map s). size_n n \<noteq> 0"
    and al: "alloc_space_at s sz a = (Inr a, s')"
  shows "free_space s' sz a = (Inr (), s)"
proof -
  from al have al1: "a mod PAGE_SIZE = 0" "sz mod PAGE_SIZE = 0"
    by (auto simp: alloc_space_at_def split: if_splits)
  with al obtain ns' where sc: "alloc_at_scan sz a (m_region_map s) = Some (a, ns')"
    and s': "s' = s\<lparr> m_region_map := ns', m_used := m_used s + sz \<rparr>"
    by (auto simp: alloc_space_at_def split: option.splits)
  from t have "chain (unat (m_start s)) (m_region_map s) (unat (m_start s) + unat (m_size s))"
    "unat (m_start s) + unat (m_size s) \<le> 2 ^ 32" "no_adjacent_free (m_region_map s)"
    by (simp_all add: tiled_def)
  from round_trip_nodes[OF this pos sc] al1 s' show ?thesis
    by (simp add: free_space_def)
qed

subsection \<open>Fixed allocation in a free node of exactly the requested size\<close>

text \<open>
  Claim C1 fails on the code. When the free node that contains the address has exactly
  the requested size, \<^verbatim>\<open>alloc_space_at\<close> marks that node used and returns the node's start,
  without comparing it with the address. In a fresh space \<open>[0, 0x2000)\<close> the request for
  \<^verbatim>\<open>0x2000\<close> bytes at \<^verbatim>\<open>0x1000\<close> returns \<open>0\<close> and marks \<open>[0, 0x2000)\<close>.
\<close>

theorem alloc_space_at_moves_request:
  "alloc_space_at (VMSpace_init 0 0x2000 ()) 0x2000 0x1000 =
     (Inr 0, (VMSpace_init 0 0x2000 ())\<lparr> m_region_map := [\<lparr> start = 0, size_n = 0x2000, used = True \<rparr>],
                                         m_used := 0x2000 \<rparr>)"
  by (simp add: alloc_space_at_def VMSpace_init_def PAGE_SIZE_def contains_def end_n_def)

text \<open>
  Claim C6 fails on the code at the same request: the allocation succeeds, and the
  \<^verbatim>\<open>free_space\<close> of the range that was asked for finds no node starting at \<^verbatim>\<open>0x1000\<close> and
  ends in \<^verbatim>\<open>ASSERT(false)\<close>.
\<close>

theorem alloc_at_free_round_trip_fails:
  "fst (alloc_space_at (VMSpace_init 0 0x2000 ()) 0x2000 0x1000) = Inr 0
   \<and> free_space (snd (alloc_space_at (VMSpace_init 0 0x2000 ()) 0x2000 0x1000)) 0x2000 0x1000
       = (Inl ASSERT_FAILED, snd (alloc_space_at (VMSpace_init 0 0x2000 ()) 0x2000 0x1000))"
  by (simp add: alloc_space_at_def free_space_def VMSpace_init_def PAGE_SIZE_def contains_def end_n_def)

section \<open>Mapping objects\<close>

lemma alloc_space_error: "alloc_space s sz = (Inl e, s') \<Longrightarrow> s' = s"
  by (auto simp: alloc_space_def split: if_splits option.splits)

lemma alloc_space_at_error: "alloc_space_at s sz a = (Inl e, s') \<Longrightarrow> s' = s"
  by (auto simp: alloc_space_at_def split: if_splits option.splits)

text \<open>
  Claim C3, as the code has it. Neither overload of \<^verbatim>\<open>map_object\<close> has a failure path after
  the range allocation: whatever the page-table mapping step reports, a successful range
  allocation makes \<^verbatim>\<open>map_object\<close> return the region at the allocated address, with the range
  still allocated. \<^verbatim>\<open>map_object\<close> fails exactly with the error of the range allocation, and
  then the whole \<^verbatim>\<open>VMSpace\<close> is as before.
\<close>

theorem map_object_no_rollback:
  "(\<forall>e s'. map_object pd_map s object prot = (Inl e, s') \<longrightarrow>
       s' = s \<and> fst (alloc_space s (o_size object)) = Inl e)
   \<and> (\<forall>a s1. alloc_space s (o_size object) = (Inr a, s1) \<longrightarrow>
        (\<exists>region s'. map_object pd_map s object prot = (Inr region, s')
           \<and> r_start region = a
           \<and> m_region_map s' = m_region_map s1 \<and> m_used s' = m_used s1))
   \<and> (\<forall>e s'. map_object_at pd_map s object address prot = (Inl e, s') \<longrightarrow>
       s' = s \<and> fst (alloc_space_at s (o_size object) address) = Inl e)
   \<and> (\<forall>a s1. alloc_space_at s (o_size object) address = (Inr a, s1) \<longrightarrow>
        (\<exists>region s'. map_object_at pd_map s object address prot = (Inr region, s')
           \<and> r_start region = a
           \<and> m_region_map s' = m_region_map s1 \<and> m_used s' = m_used s1))"
  by (auto simp: map_object_def map_object_at_def Let_def split: prod.splits sum.splits
        dest: alloc_space_error alloc_space_at_error)

text \<open>
  The statement at work with a mapping step that always fails: an object larger than the
  space, an object of one page, and the same at a fixed address (taken, then free).
\<close>

theorem map_object_no_rollback_witness:
  "map_object pd_map_fails ex_space (ex_object\<lparr> o_size := 0x10000 \<rparr>) ex_prot
     = (Inl (Errno ENOMEM), ex_space)
   \<and> alloc_space ex_space (o_size ex_object) = (Inr 0x1000, ex_space_1)
   \<and> (\<exists>region s'. map_object pd_map_fails ex_space ex_object ex_prot = (Inr region, s')
         \<and> r_start region = 0x1000
         \<and> m_region_map s' = m_region_map ex_space_1 \<and> m_used s' = m_used ex_space_1)
   \<and> map_object_at pd_map_fails ex_space_1 ex_object 0x1000 ex_prot
     = (Inl (Errno ENOMEM), ex_space_1)
   \<and> alloc_space_at ex_space (o_size ex_object) 0x1000 = (Inr 0x1000, ex_space_1)
   \<and> (\<exists>region s'. map_object_at pd_map_fails ex_space ex_object 0x1000 ex_prot = (Inr region, s')
         \<and> r_start region = 0x1000
         \<and> m_region_map s' = m_region_map ex_space_1 \<and> m_used s' = m_used ex_space_1)"
proof -
  note t = map_object_no_rollback[of pd_map_fails ex_space ex_object ex_prot "0x1000"]
  have f1: "map_object pd_map_fails ex_space (ex_object\<lparr> o_size := 0x10000 \<rparr>) ex_prot
     = (Inl (Errno ENOMEM), ex_space)"
    by (simp add: map_object_def alloc_space_def ex_space_def ex_object_def VMSpace_init_def PAGE_SIZE_def)
  have a1: "alloc_space ex_space (o_size ex_object) = (Inr 0x1000, ex_space_1)"
    by (simp add: alloc_space_def ex_space_def ex_space_1_def ex_object_def VMSpace_init_def PAGE_SIZE_def)
  have a2: "alloc_space_at ex_space (o_size ex_object) 0x1000 = (Inr 0x1000, ex_space_1)"
    by (simp add: alloc_space_at_def ex_space_def ex_space_1_def ex_object_def VMSpace_init_def
        PAGE_SIZE_def contains_def end_n_def)
  have f2: "map_object_at pd_map_fails ex_space_1 ex_object 0x1000 ex_prot
     = (Inl (Errno ENOMEM), ex_space_1)"
    by (simp add: map_object_at_def alloc_space_at_def ex_space_def ex_space_1_def ex_object_def
        VMSpace_init_def PAGE_SIZE_def contains_def end_n_def)
  have s1: "\<exists>region s'. map_object pd_map_fails ex_space ex_object ex_prot = (Inr region, s')
         \<and> r_start region = 0x1000
         \<and> m_region_map s' = m_region_map ex_space_1 \<and> m_used s' = m_used ex_space_1"
    using a1 t by blast
  have s2: "\<exists>region s'. map_object_at pd_map_fails ex_space ex_object 0x1000 ex_prot = (Inr region, s')
         \<and> r_start region = 0x1000
         \<and> m_region_map s' = m_region_map ex_space_1 \<and> m_used s' = m_used ex_space_1"
    using a2 t by blast
  from f1 a1 s1 f2 a2 s2 show ?thesis by blast
qed

text \<open>
  Claim C3 as stated fails: the mapping step reports \<^verbatim>\<open>ENOMEM\<close>, and \<^verbatim>\<open>map_object\<close> returns
  the region all the same and leaves the page at \<^verbatim>\<open>0x1000\<close> allocated.
\<close>

theorem map_object_rollback_counterexample:
  "pd_map_fails ex_region () = (Inl (Errno ENOMEM), ())
   \<and> map_object pd_map_fails ex_space ex_object ex_prot =
       (Inr ex_region, ex_space_1\<lparr> m_regions := [ex_region] \<rparr>)
   \<and> m_region_map (ex_space_1\<lparr> m_regions := [ex_region] \<rparr>) \<noteq> m_region_map ex_space"
  by (simp add: pd_map_fails_def map_object_def alloc_space_def ex_space_def ex_space_1_def
      ex_object_def ex_region_def VMSpace_init_def PAGE_SIZE_def Let_def)

subsection \<open>Regions map whole objects\<close>

lemma map_object_size:
  "(\<forall>region s'. map_object pd_map s object prot = (Inr region, s') \<longrightarrow>
       r_object region = object \<and> r_size region = o_size object \<and> region \<in> set (m_regions s'))
   \<and> (\<forall>region s'. map_object_at pd_map s object address prot = (Inr region, s') \<longrightarrow>
       r_object region = object \<and> r_size region = o_size object \<and> region \<in> set (m_regions s'))"
  by (auto simp: map_object_def map_object_at_def Let_def split: prod.splits sum.splits)

lemma shmdetach_loop_Some:
  "shmdetach_loop object rs = Some (r, rs') \<Longrightarrow>
     \<exists>pre post. rs = pre @ r # post \<and> rs' = pre @ post \<and> r_object r = object
        \<and> (\<forall>x\<in>set pre. r_object x \<noteq> object)"
proof (induction rs arbitrary: rs')
  case Nil
  then show ?case by simp
next
  case (Cons x xs)
  show ?case
  proof (cases "r_object x = object")
    case True
    with Cons.prems have "x = r" "xs = rs'" by auto
    with True show ?thesis by (intro exI[of _ "[]"] exI[of _ xs]) auto
  next
    case False
    with Cons.prems obtain ys where ys: "shmdetach_loop object xs = Some (r, ys)" "rs' = x # ys"
      by auto
    from Cons.IH[OF ys(1)] obtain pre post where
      "xs = pre @ r # post" "ys = pre @ post" "r_object r = object"
      "\<forall>x\<in>set pre. r_object x \<noteq> object" by blast
    with False ys(2) show ?thesis
      by (intro exI[of _ "x # pre"] exI[of _ post]) auto
  qed
qed

lemma shmdetach_decrement:
  assumes obj: "shared_objects k ident = Some obj"
    and inv: "\<forall>r \<in> set (vm_regions p). r_object r = as_object obj \<longrightarrow> r_size r = o_size obj"
    and ok: "sys_shmdetach pd_unmap k p ident = (Some SUCCESS, p')"
  shows "\<exists>pre r post. vm_regions p = pre @ r # post \<and> vm_regions p' = pre @ post
           \<and> r_object r = as_object obj
           \<and> m_used_shmem p' = m_used_shmem p - r_size r"
proof -
  from ok obj obtain r rs sp where l: "shmdetach_loop (as_object obj) (vm_regions p) = Some (r, rs)"
    and p': "p' = p\<lparr> m_used_shmem := m_used_shmem p - o_size obj, vm_regions := rs,
                      vm_space := sp \<rparr>"
    by (auto simp: sys_shmdetach_def get_shared_def ENOENT_def SUCCESS_def split: option.splits)
  from shmdetach_loop_Some[OF l] obtain pre post where
    pp: "vm_regions p = pre @ r # post" "rs = pre @ post" "r_object r = as_object obj" by blast
  from pp inv have "r_size r = o_size obj" by simp
  with pp p' have "vm_regions p = pre @ r # post \<and> vm_regions p' = pre @ post
           \<and> r_object r = as_object obj
           \<and> m_used_shmem p' = m_used_shmem p - r_size r" by simp
  then show ?thesis by blast
qed

lemma shmattach_adds_whole_object:
  assumes "sys_shmattach pd_map k p ident addr = (rc, out, p')"
  shows "vm_regions p' = vm_regions p
         \<or> (\<exists>region. vm_regions p' = vm_regions p @ [region]
               \<and> r_size region = o_size (r_object region))"
  using assms
  by (auto simp: sys_shmattach_def do_shmattach_def map_object_def map_object_at_def Let_def
      split: prod.splits sum.splits if_splits)

text \<open>
  Claim C10. A region that either overload of \<^verbatim>\<open>map_object\<close> returns is a region of the
  object passed in, is registered in the space, and has exactly the object's size. So has
  the region that \<^verbatim>\<open>sys_shmattach\<close> adds to the regions of a process, if it adds one. And
  when the regions of the shared object in a process have the object's size, a successful
  \<^verbatim>\<open>sys_shmdetach\<close> erases the first of them and takes exactly its size off \<^verbatim>\<open>m_used_shmem\<close>.
\<close>

theorem region_size_is_object_size:
  "(\<forall>region s'. map_object pd_map s object prot = (Inr region, s') \<longrightarrow>
       r_object region = object \<and> r_size region = o_size (r_object region)
       \<and> region \<in> set (m_regions s'))
   \<and> (\<forall>region s'. map_object_at pd_map s object address prot = (Inr region, s') \<longrightarrow>
       r_object region = object \<and> r_size region = o_size (r_object region)
       \<and> region \<in> set (m_regions s'))
   \<and> (\<forall>rc out p'. sys_shmattach pd_map k p ident addr = (rc, out, p') \<longrightarrow>
        vm_regions p' = vm_regions p
        \<or> (\<exists>region. vm_regions p' = vm_regions p @ [region]
              \<and> r_size region = o_size (r_object region)))
   \<and> (\<forall>obj p'. shared_objects k ident = Some obj
          \<and> (\<forall>r \<in> set (vm_regions p). r_object r = as_object obj \<longrightarrow> r_size r = o_size obj)
          \<and> sys_shmdetach pd_unmap k p ident = (Some SUCCESS, p') \<longrightarrow>
        (\<exists>pre r post. vm_regions p = pre @ r # post \<and> vm_regions p' = pre @ post
           \<and> r_object r = as_object obj
           \<and> m_used_shmem p' = m_used_shmem p - r_size r))"
proof -
  have 1: "\<forall>region s'. map_object pd_map s object prot = (Inr region, s') \<longrightarrow>
       r_object region = object \<and> r_size region = o_size (r_object region)
       \<and> region \<in> set (m_regions s')"
    using map_object_size[of pd_map s object prot] by simp
  have 2: "\<forall>region s'. map_object_at pd_map s object address prot = (Inr region, s') \<longrightarrow>
       r_object region = object \<and> r_size region = o_size (r_object region)
       \<and> region \<in> set (m_regions s')"
    using map_object_size[of pd_map s object prot address] by simp
  have 3: "\<forall>rc out p'. sys_shmattach pd_map k p ident addr = (rc, out, p') \<longrightarrow>
        vm_regions p' = vm_regions p
        \<or> (\<exists>region. vm_regions p' = vm_regions p @ [region]
              \<and> r_size region = o_size (r_object region))"
    using shmattach_adds_whole_object[of pd_map k p ident addr] by blast
  have 4: "\<forall>obj p'. shared_objects k ident = Some obj
          \<and> (\<forall>r \<in> set (vm_regions p). r_object r = as_object obj \<longrightarrow> r_size r = o_size obj)
          \<and> sys_shmdetach pd_unmap k p ident = (Some SUCCESS, p') \<longrightarrow>
        (\<exists>pre r post. vm_regions p = pre @ r # post \<and> vm_regions p' = pre @ post
           \<and> r_object r = as_object obj
           \<and> m_used_shmem p' = m_used_shmem p - r_size r)"
    using shmdetach_decrement[of k ident _ p pd_unmap] by blast
  from 1 2 3 4 show ?thesis by blast
qed

text \<open>
  The statement at work: mapping the one-page example object, and detaching the shared
  object 7 from the example process, whose counter goes from \<^verbatim>\<open>0x1000\<close> to \<open>0\<close>.
\<close>

theorem region_size_is_object_size_witness:
  "map_object pd_map_fails ex_space ex_object ex_prot
     = (Inr ex_region, ex_space_1\<lparr> m_regions := [ex_region] \<rparr>)
   \<and> r_size ex_region = o_size (r_object ex_region)
   \<and> shared_objects ex_kernel 7 = Some ex_shared
   \<and> sys_shmdetach pd_unmap_ok ex_kernel ex_process 7
     = (Some SUCCESS, ex_process\<lparr> m_used_shmem := 0, vm_regions := [ex_private_region],
                                   vm_space := ex_space_unmapped_shared \<rparr>)
   \<and> (\<exists>pre r post. vm_regions ex_process = pre @ r # post
         \<and> [ex_private_region] = pre @ post
         \<and> r_object r = as_object ex_shared
         \<and> (0 :: size_t) = m_used_shmem ex_process - r_size r)"
proof -
  note t = region_size_is_object_size[of pd_map_fails ex_space ex_object ex_prot _ ex_kernel
             ex_process 7 _ pd_unmap_ok]
  have m: "map_object pd_map_fails ex_space ex_object ex_prot
     = (Inr ex_region, ex_space_1\<lparr> m_regions := [ex_region] \<rparr>)"
    by (simp add: pd_map_fails_def map_object_def alloc_space_def ex_space_def ex_space_1_def
        ex_object_def ex_region_def VMSpace_init_def PAGE_SIZE_def Let_def)
  have sz: "r_size ex_region = o_size (r_object ex_region)"
    using m t by blast
  have obj: "shared_objects ex_kernel 7 = Some ex_shared"
    by (simp add: ex_kernel_def)
  have inv: "\<forall>r \<in> set (vm_regions ex_process).
      r_object r = as_object ex_shared \<longrightarrow> r_size r = o_size ex_shared"
    by (simp add: ex_process_def ex_private_region_def ex_shared_region_def as_object_def
        ex_shared_def)
  have l: "shmdetach_loop (as_object ex_shared) (vm_regions ex_process)
             = Some (ex_shared_region, [ex_private_region])"
    by (simp add: ex_process_def ex_private_region_def ex_shared_region_def as_object_def
        ex_shared_def)
  have e1: "erase_region ex_shared_region (m_regions ex_process_space) = Some [ex_private_region]"
    by (simp add: ex_process_space_def ex_private_region_def ex_shared_region_def as_object_def
        ex_shared_def)
  have f: "free_space (ex_process_space\<lparr> m_regions := [ex_private_region] \<rparr>) 0x1000 0x8000
             = (Inr (), ex_space_unmapped_shared)"
    by (simp add: free_space_def ex_process_space_def ex_space_unmapped_shared_def PAGE_SIZE_def
        merge_prev_def merge_next_def)
  have u: "destroy_region pd_unmap_ok ex_process_space ex_shared_region
             = Some ex_space_unmapped_shared"
    using e1 f
    by (simp add: destroy_region_def unmap_region_def pd_unmap_ok_def ex_shared_region_def
        ex_shared_def as_object_def ex_space_unmapped_shared_def ex_process_space_def)
  have d: "sys_shmdetach pd_unmap_ok ex_kernel ex_process 7
     = (Some SUCCESS, ex_process\<lparr> m_used_shmem := 0, vm_regions := [ex_private_region],
                                   vm_space := ex_space_unmapped_shared \<rparr>)"
    using l u
    by (simp add: sys_shmdetach_def get_shared_def ex_kernel_def ex_shared_def)
       (simp add: ex_process_def)
  have e: "\<exists>pre r post. vm_regions ex_process = pre @ r # post
         \<and> vm_regions (ex_process\<lparr> m_used_shmem := 0, vm_regions := [ex_private_region],
                                     vm_space := ex_space_unmapped_shared \<rparr>)
             = pre @ post
         \<and> r_object r = as_object ex_shared
         \<and> m_used_shmem (ex_process\<lparr> m_used_shmem := 0, vm_regions := [ex_private_region],
                                     vm_space := ex_space_unmapped_shared \<rparr>)
             = m_used_shmem ex_process - r_size r"
    using obj inv d t by blast
  from m sz obj d e show ?thesis by simp
qed

section \<open>The system calls\<close>

subsection \<open>\<^verbatim>\<open>munmap\<close> matches exactly\<close>





lemma free_space_result: "fst (free_space s sz a) = Inl ASSERT_FAILED \<or> fst (free_space s sz a) = Inr ()"
  by (simp add: free_space_def split: option.splits)






subsection \<open>The sign of the error codes\<close>

text \<open>
  Claim C4 fails on the code. \<^verbatim>\<open>sys_munmap\<close> and \<^verbatim>\<open>sys_shmdetach\<close> end in \<^verbatim>\<open>return ENOENT;\<close>
  and \<^verbatim>\<open>sys_shmdetach\<close> passes on the code of \<^verbatim>\<open>Result(ENOENT)\<close> as it is, while \<^verbatim>\<open>sys_shmallow\<close>
  in the same file returns \<^verbatim>\<open>-EINVAL\<close>. So the failing calls below return the positive 2, and
  the failing \<^verbatim>\<open>sys_shmallow\<close> returns the negative -22.
\<close>

theorem syscall_failure_not_negative:
  "sys_munmap pd_unmap_ok ex_process 0x4000 0x1000 = (Some 2, ex_process)
   \<and> sys_shmdetach pd_unmap_ok ex_kernel ex_fresh_process 7 = (Some 2, ex_fresh_process)
   \<and> sys_shmdetach pd_unmap_ok ex_kernel ex_process 9 = (Some 2, ex_process)
   \<and> sys_shmallow ex_kernel 7 2 SHM_WRITE = (Some (- 22), ex_kernel)"
  by (simp add: sys_munmap_def sys_shmdetach_def sys_shmallow_def get_shared_def ex_process_def
      ex_private_region_def ex_shared_region_def ex_fresh_process_def
      ex_kernel_def ENOENT_def EINVAL_def SHM_READ_def SHM_WRITE_def SHM_SHARE_def)

subsection \<open>\<^verbatim>\<open>shmattach\<close> does not tell why it refuses\<close>

text \<open>
  Claim C8. \<^verbatim>\<open>sys_shmattach\<close> returns \<^verbatim>\<open>ENOENT\<close>, writes no \<^verbatim>\<open>shm\<close> and leaves the process
  unchanged in each of the three cases: the identifier names no shared object; the
  caller has no entry in the object's sharing table; the caller's entry lacks read
  permission. The three results are the same value.
\<close>

theorem sys_shmattach_opaque:
  "(shared_objects k ident = None \<longrightarrow>
      sys_shmattach pd_map k p ident addr = (Some ENOENT, None, p))
   \<and> (\<forall>obj. shared_objects k ident = Some obj \<and> m_shared_permissions obj (pid p) = None \<longrightarrow>
      sys_shmattach pd_map k p ident addr = (Some ENOENT, None, p))
   \<and> (\<forall>obj prot. shared_objects k ident = Some obj \<and> m_shared_permissions obj (pid p) = Some prot
        \<and> \<not> read prot \<longrightarrow>
      sys_shmattach pd_map k p ident addr = (Some ENOENT, None, p))"
  by (simp add: sys_shmattach_def do_shmattach_def get_shared_def get_shared_permissions_def)

text \<open>
  The three cases on the example kernel: identifier 9 is unknown, process 2 is not listed
  for object 7, process 3 is listed without read permission.
\<close>

theorem sys_shmattach_opaque_witness:
  "sys_shmattach (\<lambda>r pd. (True, pd)) ex_kernel ex_process 9 0 = (Some ENOENT, None, ex_process)
   \<and> sys_shmattach (\<lambda>r pd. (True, pd)) ex_kernel (ex_process\<lparr> pid := 2 \<rparr>) 7 0
        = (Some ENOENT, None, ex_process\<lparr> pid := 2 \<rparr>)
   \<and> sys_shmattach (\<lambda>r pd. (True, pd)) ex_kernel (ex_process\<lparr> pid := 3 \<rparr>) 7 0
        = (Some ENOENT, None, ex_process\<lparr> pid := 3 \<rparr>)"
proof -
  have 1: "shared_objects ex_kernel 9 = None" by (simp add: ex_kernel_def)
  have 2: "shared_objects ex_kernel 7 = Some ex_shared
           \<and> m_shared_permissions ex_shared (pid (ex_process\<lparr> pid := 2 \<rparr>)) = None"
    by (simp add: ex_kernel_def ex_shared_def)
  have 3: "shared_objects ex_kernel 7 = Some ex_shared
           \<and> m_shared_permissions ex_shared (pid (ex_process\<lparr> pid := 3 \<rparr>)) = Some (ex_prot\<lparr> read := False \<rparr>)
           \<and> \<not> read (ex_prot\<lparr> read := False \<rparr>)"
    by (simp add: ex_kernel_def ex_shared_def)
  show ?thesis
    using 1 2 3
      sys_shmattach_opaque[of ex_kernel 9 "\<lambda>r pd. (True, pd)" ex_process 0]
      sys_shmattach_opaque[of ex_kernel 7 "\<lambda>r pd. (True, pd)" "ex_process\<lparr> pid := 2 \<rparr>" 0]
      sys_shmattach_opaque[of ex_kernel 7 "\<lambda>r pd. (True, pd)" "ex_process\<lparr> pid := 3 \<rparr>" 0]
    by blast
qed

subsection \<open>\<^verbatim>\<open>shmallow\<close> validates its arguments\<close>

lemma perms_rw_zero:
  "(perms AND (SHM_READ OR SHM_WRITE) = 0) \<longleftrightarrow> (perms AND SHM_READ = 0 \<and> perms AND SHM_WRITE = 0)"
  for perms :: "32 word"
  by (simp only: bit.conj_disj_distrib or_eq_0_iff)

text \<open>
  Claim C9. \<^verbatim>\<open>sys_shmallow\<close> returns \<^verbatim>\<open>-EINVAL\<close> and changes nothing when \<^verbatim>\<open>perms\<close> has
  \<^verbatim>\<open>SHM_SHARE\<close> set, has neither \<^verbatim>\<open>SHM_READ\<close> nor \<^verbatim>\<open>SHM_WRITE\<close> set, has \<^verbatim>\<open>SHM_WRITE\<close> without
  \<^verbatim>\<open>SHM_READ\<close>, or when the pid is not that of a live process. When all four checks pass
  (so \<^verbatim>\<open>SHM_READ\<close> is set) and the object exists, the entry of the pid in the object's
  sharing table becomes read, write as \<^verbatim>\<open>SHM_WRITE\<close> says, no execute, no copy-on-write,
  replacing any entry it had, and the call returns \<^verbatim>\<open>SUCCESS\<close>.
\<close>

theorem sys_shmallow_checks:
  "(perms AND SHM_SHARE \<noteq> 0 \<longrightarrow> sys_shmallow k ident p perms = (Some (- EINVAL), k))
   \<and> (perms AND SHM_READ = 0 \<and> perms AND SHM_WRITE = 0 \<longrightarrow>
        sys_shmallow k ident p perms = (Some (- EINVAL), k))
   \<and> (perms AND SHM_WRITE \<noteq> 0 \<and> perms AND SHM_READ = 0 \<longrightarrow>
        sys_shmallow k ident p perms = (Some (- EINVAL), k))
   \<and> (p \<notin> tasks k \<longrightarrow> sys_shmallow k ident p perms = (Some (- EINVAL), k))
   \<and> (\<forall>obj. perms AND SHM_SHARE = 0 \<and> perms AND SHM_READ \<noteq> 0 \<and> p \<in> tasks k
          \<and> shared_objects k ident = Some obj \<longrightarrow>
        sys_shmallow k ident p perms =
          (Some SUCCESS,
           k\<lparr> shared_objects := (shared_objects k)
                (ident \<mapsto> obj\<lparr> m_shared_permissions := (m_shared_permissions obj)
                   (p \<mapsto> \<lparr> read = True, write = (perms AND SHM_WRITE \<noteq> 0),
                            execute = False, cow = False \<rparr>) \<rparr>) \<rparr>))"
  by (auto simp: sys_shmallow_def perms_rw_zero get_shared_def share_def)

text \<open>
  The spec's scenarios on the example kernel: write without read, the share bit, no bit
  at all, a pid that is not live, and a grant of read and write to process 2.
\<close>

theorem sys_shmallow_checks_witness:
  "sys_shmallow ex_kernel 7 2 SHM_WRITE = (Some (- EINVAL), ex_kernel)
   \<and> sys_shmallow ex_kernel 7 2 SHM_SHARE = (Some (- EINVAL), ex_kernel)
   \<and> sys_shmallow ex_kernel 7 2 0 = (Some (- EINVAL), ex_kernel)
   \<and> sys_shmallow ex_kernel 7 5 (SHM_READ OR SHM_WRITE) = (Some (- EINVAL), ex_kernel)
   \<and> sys_shmallow ex_kernel 7 2 (SHM_READ OR SHM_WRITE) =
        (Some SUCCESS,
         ex_kernel\<lparr> shared_objects := (shared_objects ex_kernel)
            (7 \<mapsto> ex_shared\<lparr> m_shared_permissions := (m_shared_permissions ex_shared)
               (2 \<mapsto> \<lparr> read = True, write = True, execute = False, cow = False \<rparr>) \<rparr>) \<rparr>)"
proof -
  have b1: "SHM_WRITE AND SHM_WRITE \<noteq> 0 \<and> SHM_WRITE AND SHM_READ = 0"
    by (simp add: SHM_READ_def SHM_WRITE_def)
  have b2: "SHM_SHARE AND SHM_SHARE \<noteq> 0"
    by (simp add: SHM_SHARE_def)
  have b3: "(0 :: 32 word) AND SHM_READ = 0 \<and> (0 :: 32 word) AND SHM_WRITE = 0"
    by simp
  have b4: "(5 :: int) \<notin> tasks ex_kernel"
    by (simp add: ex_kernel_def)
  have b5: "(SHM_READ OR SHM_WRITE) AND SHM_SHARE = 0 \<and> (SHM_READ OR SHM_WRITE) AND SHM_READ \<noteq> 0
       \<and> (2 :: int) \<in> tasks ex_kernel \<and> shared_objects ex_kernel 7 = Some ex_shared"
    by (simp add: SHM_READ_def SHM_WRITE_def SHM_SHARE_def ex_kernel_def)
  have b6: "((SHM_READ OR SHM_WRITE) AND SHM_WRITE \<noteq> 0) = True"
    by (simp add: SHM_READ_def SHM_WRITE_def)
  note t = sys_shmallow_checks
  have 1: "sys_shmallow ex_kernel 7 2 SHM_WRITE = (Some (- EINVAL), ex_kernel)"
    using b1 t[of SHM_WRITE ex_kernel 7 2] by blast
  have 2: "sys_shmallow ex_kernel 7 2 SHM_SHARE = (Some (- EINVAL), ex_kernel)"
    using b2 t[of SHM_SHARE ex_kernel 7 2] by blast
  have 3: "sys_shmallow ex_kernel 7 2 0 = (Some (- EINVAL), ex_kernel)"
    using b3 t[of 0 ex_kernel 7 2] by blast
  have 4: "sys_shmallow ex_kernel 7 5 (SHM_READ OR SHM_WRITE) = (Some (- EINVAL), ex_kernel)"
    using b4 t[of "SHM_READ OR SHM_WRITE" ex_kernel 7 5] by blast
  have 5: "sys_shmallow ex_kernel 7 2 (SHM_READ OR SHM_WRITE) =
        (Some SUCCESS,
         ex_kernel\<lparr> shared_objects := (shared_objects ex_kernel)
            (7 \<mapsto> ex_shared\<lparr> m_shared_permissions := (m_shared_permissions ex_shared)
               (2 \<mapsto> \<lparr> read = True, write = ((SHM_READ OR SHM_WRITE) AND SHM_WRITE \<noteq> 0),
                        execute = False, cow = False \<rparr>) \<rparr>) \<rparr>)"
    using b5 t[of "SHM_READ OR SHM_WRITE" ex_kernel 7 2] by blast
  from 1 2 3 4 5 show ?thesis unfolding b6 by simp
qed

end
